theory Spec2Isabelle
  imports Main "HOL-Library.Word"
begin

unbundle bit_operations_syntax

section \<open>Streams, exceptions and fixed-width integers\<close>

text \<open>
  The embedding follows \<^verbatim>\<open>src/include/sv/serialize.h\<close>. A byte is an 8-bit word. The C++
  unsigned integers (\<^verbatim>\<open>uint8_t\<close> to \<^verbatim>\<open>uint64_t\<close>, \<^verbatim>\<open>size_t\<close>, \<^verbatim>\<open>uintmax_t\<close>) are natural
  numbers; wherever the source can wrap, the reduction modulo \<open>2 ^ 64\<close> is written out
  (\<open>size_t\<close>, \<open>take_bit 64\<close>).
\<close>

type_synonym byte = "8 word"

text \<open>
  The exceptions the header throws, with the message of the source: \<^verbatim>\<open>std::ios_base::failure\<close>
  (lines 271, 296, 301, 306, 310, 480), \<^verbatim>\<open>std::runtime_error\<close> (lines 382, 394), and the
  failure of the stream's own \<^verbatim>\<open>read\<close>.
\<close>

datatype exception = ios_failure string | runtime_error string | end_of_data

text \<open>
  Modelled from the spec: the error kinds of section 7 of the specification and the exception
  each one names. The header has no such classification; it throws the exceptions above.
\<close>

datatype error_kind =
    UnderrunError | NonCanonicalEncodingError | SizeTooLargeError | VarIntError
  | LengthLimitExceededError

definition error_kind :: "exception \<Rightarrow> error_kind option" where
  "error_kind e =
     (if e = end_of_data then Some UnderrunError
      else if e = ios_failure ''non-canonical ReadCompactSize()'' then Some NonCanonicalEncodingError
      else if e = ios_failure ''ReadCompactSize(): size too large'' then Some SizeTooLargeError
      else if e = ios_failure ''WriteCompactSize(): size too large'' then Some SizeTooLargeError
      else if e = runtime_error ''Deserialisation Error ReadVarInt'' then Some VarIntError
      else if e = ios_failure ''Array length limit exceeded'' then Some LengthLimitExceededError
      else None)"

text \<open>Sequencing of two steps, the first of which may throw.\<close>

definition bindE :: "exception + 'a \<Rightarrow> ('a \<Rightarrow> exception + 'b) \<Rightarrow> exception + 'b" where
  "bindE m f = (case m of Inl e \<Rightarrow> Inl e | Inr x \<Rightarrow> f x)"

text \<open>
  Modelled from the spec: the \<^verbatim>\<open>Stream\<close> template parameter is supplied by the caller and no
  stream class is part of the header. A byte source is the list of bytes not yet consumed;
  \<open>read s n\<close> yields exactly \<open>n\<close> bytes or fails with the underrun error, consuming nothing.
  A byte sink absorbs the bytes written to it, in order.
\<close>

definition read :: "byte list \<Rightarrow> nat \<Rightarrow> exception + (byte list \<times> byte list)" where
  "read s n = (if length s < n then Inl end_of_data else Inr (take n s, drop n s))"

definition byte_sink_write :: "byte list \<Rightarrow> byte list \<Rightarrow> byte list" where
  "byte_sink_write s bs = s @ bs"

text \<open>
  \<^verbatim>\<open>htole16/32/64\<close> followed by the write of the object's bytes, and the read followed by
  \<^verbatim>\<open>le16toh/32/64\<close> (lines 66-103): \<open>htole k obj\<close> is the \<open>k\<close>-byte little-endian image of
  \<open>obj\<close> truncated to \<open>8 * k\<close> bits, as the conversion to the parameter type does. The writers
  take the stream's \<open>write\<close> as a parameter, so that one definition serves the byte sink
  and \<^verbatim>\<open>CSizeComputer\<close>.
\<close>

fun htole :: "nat \<Rightarrow> nat \<Rightarrow> byte list" where
  "htole 0 obj = []"
| "htole (Suc k) obj = of_nat obj # htole k (obj div 256)"

fun letoh :: "byte list \<Rightarrow> nat" where
  "letoh [] = 0"
| "letoh (b # bs) = unat b + 256 * letoh bs"

definition ser_writedata8 :: "('s \<Rightarrow> byte list \<Rightarrow> 's) \<Rightarrow> 's \<Rightarrow> nat \<Rightarrow> 's" where
  "ser_writedata8 write s obj = write s (htole 1 obj)"

definition ser_writedata16 :: "('s \<Rightarrow> byte list \<Rightarrow> 's) \<Rightarrow> 's \<Rightarrow> nat \<Rightarrow> 's" where
  "ser_writedata16 write s obj = write s (htole 2 obj)"

definition ser_writedata32 :: "('s \<Rightarrow> byte list \<Rightarrow> 's) \<Rightarrow> 's \<Rightarrow> nat \<Rightarrow> 's" where
  "ser_writedata32 write s obj = write s (htole 4 obj)"

definition ser_writedata64 :: "('s \<Rightarrow> byte list \<Rightarrow> 's) \<Rightarrow> 's \<Rightarrow> nat \<Rightarrow> 's" where
  "ser_writedata64 write s obj = write s (htole 8 obj)"

definition ser_readdata8 :: "byte list \<Rightarrow> exception + (nat \<times> byte list)" where
  "ser_readdata8 s = bindE (read s 1) (\<lambda>(obj, s'). Inr (letoh obj, s'))"

definition ser_readdata16 :: "byte list \<Rightarrow> exception + (nat \<times> byte list)" where
  "ser_readdata16 s = bindE (read s 2) (\<lambda>(obj, s'). Inr (letoh obj, s'))"

definition ser_readdata32 :: "byte list \<Rightarrow> exception + (nat \<times> byte list)" where
  "ser_readdata32 s = bindE (read s 4) (\<lambda>(obj, s'). Inr (letoh obj, s'))"

definition ser_readdata64 :: "byte list \<Rightarrow> exception + (nat \<times> byte list)" where
  "ser_readdata64 s = bindE (read s 8) (\<lambda>(obj, s'). Inr (letoh obj, s'))"

section \<open>CompactSize\<close>

text \<open>
  Line 31: \<^verbatim>\<open>MAX_SIZE = std::numeric_limits<uint32_t>::max()\<close>. \<open>WriteCompactSize\<close> is lines
  269-286, \<open>GetSizeOfCompactSize\<close> lines 253-265, \<open>ReadCompactSize\<close> lines 288-313. The
  comparisons are those of the source, also the ones the guard on \<open>MAX_SIZE\<close> makes
  unreachable.
\<close>

definition MAX_SIZE :: nat where
  "MAX_SIZE = 4294967295"

definition WriteCompactSize :: "('s \<Rightarrow> byte list \<Rightarrow> 's) \<Rightarrow> 's \<Rightarrow> nat \<Rightarrow> exception + 's" where
  "WriteCompactSize write os nSize =
     (if nSize > MAX_SIZE then Inl (ios_failure ''WriteCompactSize(): size too large'')
      else if nSize < 253 then Inr (ser_writedata8 write os nSize)
      else if nSize \<le> 65535 then
        Inr (ser_writedata16 write (ser_writedata8 write os 253) nSize)
      else if nSize \<le> 4294967295 then
        Inr (ser_writedata32 write (ser_writedata8 write os 254) nSize)
      else Inr (ser_writedata64 write (ser_writedata8 write os 255) nSize))"

definition GetSizeOfCompactSize :: "nat \<Rightarrow> nat" where
  "GetSizeOfCompactSize nSize =
     (if nSize < 253 then 1
      else if nSize \<le> 65535 then 1 + 2
      else if nSize \<le> 4294967295 then 1 + 4
      else 1 + 8)"

definition ReadCompactSize :: "byte list \<Rightarrow> exception + (nat \<times> byte list)" where
  "ReadCompactSize s =
     bindE (ser_readdata8 s) (\<lambda>(chSize, s1).
       bindE
         (if chSize < 253 then Inr (chSize, s1)
          else if chSize = 253 then
            bindE (ser_readdata16 s1) (\<lambda>(nSizeRet, s2).
              if nSizeRet < 253 then Inl (ios_failure ''non-canonical ReadCompactSize()'')
              else Inr (nSizeRet, s2))
          else if chSize = 254 then
            bindE (ser_readdata32 s1) (\<lambda>(nSizeRet, s2).
              if nSizeRet < 0x10000 then Inl (ios_failure ''non-canonical ReadCompactSize()'')
              else Inr (nSizeRet, s2))
          else
            bindE (ser_readdata64 s1) (\<lambda>(nSizeRet, s2).
              if nSizeRet < 0x100000000 then Inl (ios_failure ''non-canonical ReadCompactSize()'')
              else Inr (nSizeRet, s2)))
         (\<lambda>(nSizeRet, s2).
            if nSizeRet > MAX_SIZE then Inl (ios_failure ''ReadCompactSize(): size too large'')
            else Inr (nSizeRet, s2)))"

section \<open>VarInt\<close>

text \<open>
  \<open>GetSizeOfVarInt\<close> (lines 338-347), \<open>WriteVarInt\<close> (lines 351-366) and \<open>ReadVarInt\<close>
  (lines 368-395), for a non-negative value of the integer type \<open>I\<close>. \<open>WriteVarInt_tmp n len\<close>
  is the buffer \<^verbatim>\<open>tmp\<close> filled by the first loop of \<open>WriteVarInt\<close>, in the order it is filled;
  the second loop writes it back to front. \<open>ReadVarInt\<close> accumulates in a \<^verbatim>\<open>uintmax_t\<close>
  (64 bits, so \<open>maxSize = 10\<close>), compares it with \<^verbatim>\<open>std::numeric_limits<I>::max() >> 7\<close>,
  where \<open>imax\<close> is the maximum of \<open>I\<close>, and converts the result to \<open>I\<close> on return.
\<close>

function GetSizeOfVarInt_loop :: "nat \<Rightarrow> nat \<Rightarrow> nat" where
  "GetSizeOfVarInt_loop n nRet =
     (let nRet = nRet + 1 in
      if n \<le> 0x7F then nRet
      else GetSizeOfVarInt_loop (drop_bit 7 n - 1) nRet)"
  by pat_completeness auto
termination
  by (relation "measure (\<lambda>(n, nRet). n)") (auto simp: drop_bit_eq_div)

definition GetSizeOfVarInt :: "nat \<Rightarrow> nat" where
  "GetSizeOfVarInt n = GetSizeOfVarInt_loop n 0"

function WriteVarInt_tmp :: "nat \<Rightarrow> nat \<Rightarrow> nat list" where
  "WriteVarInt_tmp n len =
     ((n AND 0x7F) OR (if len \<noteq> 0 then 0x80 else 0x00)) #
     (if n \<le> 0x7F then [] else WriteVarInt_tmp (drop_bit 7 n - 1) (len + 1))"
  by pat_completeness auto
termination
  by (relation "measure (\<lambda>(n, len). n)") (auto simp: drop_bit_eq_div)

definition WriteVarInt :: "('s \<Rightarrow> byte list \<Rightarrow> 's) \<Rightarrow> 's \<Rightarrow> nat \<Rightarrow> 's" where
  "WriteVarInt write os n = foldl (ser_writedata8 write) os (rev (WriteVarInt_tmp n 0))"

definition maxSize :: nat where
  "maxSize = (8 * 8 + 6) div 7"

function ReadVarInt_loop :: "nat \<Rightarrow> nat \<Rightarrow> nat \<Rightarrow> byte list \<Rightarrow> exception + (nat \<times> byte list)" where
  "ReadVarInt_loop overflow i n s =
     (if i < maxSize then
        if n > overflow then Inl (runtime_error ''Deserialisation Error ReadVarInt'')
        else
          bindE (ser_readdata8 s) (\<lambda>(chData, s').
            let n = take_bit 64 (push_bit 7 n) OR (chData AND 0x7F) in
            if chData AND 0x80 = 0 then Inr (n, s')
            else ReadVarInt_loop overflow (i + 1) (take_bit 64 (n + 1)) s')
      else Inl (runtime_error ''Deserialisation Error ReadVarInt''))"
  by pat_completeness auto
termination
  by (relation "measure (\<lambda>(overflow, i, n, s). maxSize - i)") auto

definition ReadVarInt_uintmax :: "nat \<Rightarrow> byte list \<Rightarrow> exception + (nat \<times> byte list)" where
  "ReadVarInt_uintmax imax s = ReadVarInt_loop (drop_bit 7 imax) 0 0 s"

definition ReadVarInt :: "nat \<Rightarrow> byte list \<Rightarrow> exception + (nat \<times> byte list)" where
  "ReadVarInt imax s = bindE (ReadVarInt_uintmax imax s) (\<lambda>(n, s'). Inr (n mod (imax + 1), s'))"

section \<open>Decoding into a destination\<close>

text \<open>
  The \<^verbatim>\<open>Unserialize\<close> functions write into a destination passed by reference. A decoder takes
  the stream and the destination's current value; it returns the new value with the rest of
  the stream, or the exception thrown together with the destination as the throw leaves it.
\<close>

datatype 'd outcome = Done 'd "byte list" | Thrown exception 'd

type_synonym 'a unser = "byte list \<Rightarrow> 'a \<Rightarrow> 'a outcome"

text \<open>Lines 209-211: \<^verbatim>\<open>a = ser_readdata8(s)\<close>; the destination is untouched on a throw.\<close>

definition Unserialize_uint8 :: "byte unser" where
  "Unserialize_uint8 s a =
     (case ser_readdata8 s of Inl e \<Rightarrow> Thrown e a | Inr (x, s') \<Rightarrow> Done (of_nat x) s')"


text \<open>
  Lines 656-657, the arithmetic of \<^verbatim>\<open>size_t\<close> (64 bits), and \<^verbatim>\<open>std::vector::resize\<close>, which
  truncates or appends value-initialised elements. \<open>chunk_elems\<close> is the expression
  \<^verbatim>\<open>1 + (chunkSize - 1) / sizeof(T)\<close> of lines 732 and 751, computed in \<^verbatim>\<open>size_t\<close>.
\<close>

definition size_t :: "nat \<Rightarrow> nat" where
  "size_t x = x mod 2 ^ 64"

definition STARTING_CHUNK_SIZE :: nat where
  "STARTING_CHUNK_SIZE = 16000000"

definition CHUNK_GROWTH_RATE :: nat where
  "CHUNK_GROWTH_RATE = 3"

definition resize :: "'a list \<Rightarrow> nat \<Rightarrow> 'a \<Rightarrow> 'a list" where
  "resize v n x = take n v @ replicate (n - length v) x"

definition chunk_elems :: "nat \<Rightarrow> nat \<Rightarrow> nat" where
  "chunk_elems chunkSize sizeof_T = size_t (1 + size_t (chunkSize + 2 ^ 64 - 1) div sizeof_T)"

definition sizeof_uint8_t :: nat where
  "sizeof_uint8_t = 1"

text \<open>
  Lines 725-739, the overload chosen for elements of type \<^verbatim>\<open>uint8_t\<close> (and lines 659-673 for
  \<^verbatim>\<open>prevector\<close>, with the same body): clear, read the length, then per chunk compute
  \<^verbatim>\<open>blk\<close>, grow \<^verbatim>\<open>chunkSize\<close>, resize to \<open>i + blk\<close> and read \<open>blk\<close> bytes into the new
  slots. The loop carries besides the program state the list \<open>rs\<close> of the sizes passed to
  \<^verbatim>\<open>resize\<close> so far, which the code does not store; \<open>untraced\<close> forgets it and \<open>resizes\<close>
  reads it. The loop is a partial function: that it returns is proved, not assumed.
\<close>

partial_function (option) Unserialize_impl_flat_loop ::
  "nat \<Rightarrow> nat \<Rightarrow> nat \<Rightarrow> byte list \<Rightarrow> nat list \<Rightarrow> byte list \<Rightarrow> (byte list \<times> nat list) outcome option" where
  "Unserialize_impl_flat_loop nSize i chunkSize v rs s =
     (if i < nSize then
        let blk = min (nSize - i) (chunk_elems chunkSize sizeof_uint8_t);
            chunkSize = size_t (chunkSize * CHUNK_GROWTH_RATE);
            v = resize v (i + blk) 0;
            rs = rs @ [i + blk]
        in case read s (size_t (blk * sizeof_uint8_t)) of
             Inl e \<Rightarrow> Some (Thrown e (v, rs))
           | Inr (bytes, s') \<Rightarrow>
               Unserialize_impl_flat_loop nSize (i + blk) chunkSize
                 (take i v @ bytes @ drop (i + blk) v) rs s'
      else Some (Done (v, rs) s))"

definition Unserialize_impl_flat_traced ::
  "byte list \<Rightarrow> byte list \<Rightarrow> (byte list \<times> nat list) outcome option" where
  "Unserialize_impl_flat_traced s v =
     (let v = [] in
      case ReadCompactSize s of
        Inl e \<Rightarrow> Some (Thrown e (v, []))
      | Inr (nSize, s') \<Rightarrow> Unserialize_impl_flat_loop nSize 0 STARTING_CHUNK_SIZE v [] s')"

fun untraced :: "('d \<times> nat list) outcome \<Rightarrow> 'd outcome" where
  "untraced (Done (v, rs) s) = Done v s"
| "untraced (Thrown e (v, rs)) = Thrown e v"

fun resizes :: "('d \<times> nat list) outcome \<Rightarrow> nat list" where
  "resizes (Done (v, rs) s) = rs"
| "resizes (Thrown e (v, rs)) = rs"

definition Unserialize_impl_flat :: "byte list \<Rightarrow> byte list \<Rightarrow> byte list outcome option" where
  "Unserialize_impl_flat s v = map_option untraced (Unserialize_impl_flat_traced s v)"

text \<open>
  Lines 742-760 (and 675-693 for \<^verbatim>\<open>prevector\<close>): the element-wise overload, for elements with
  decoder \<open>unser\<close>, value-initialised element \<open>dflt\<close> and \<^verbatim>\<open>sizeof(T) = sizeof_T\<close>.
  \<open>Unserialize_for\<close> is the inner \<^verbatim>\<open>for (; i < nMid; i++) Unserialize(is, v[i])\<close>; the index
  is below the length of \<open>v\<close> there, since \<open>v\<close> has just been resized to \<open>nMid\<close>.
\<close>

function Unserialize_for ::
  "'a unser \<Rightarrow> nat \<Rightarrow> nat \<Rightarrow> 'a list \<Rightarrow> byte list \<Rightarrow> (nat \<times> 'a list) outcome" where
  "Unserialize_for unser nMid i v s =
     (if i < nMid then
        (case unser s (v ! i) of
           Thrown e a \<Rightarrow> Thrown e (i, v[i := a])
         | Done a s' \<Rightarrow> Unserialize_for unser nMid (i + 1) (v[i := a]) s')
      else Done (i, v) s)"
  by pat_completeness auto
termination
  by (relation "measure (\<lambda>(unser, nMid, i, v, s). nMid - i)") auto

partial_function (option) Unserialize_impl_loop ::
  "'a unser \<Rightarrow> 'a \<Rightarrow> nat \<Rightarrow> nat \<Rightarrow> nat \<Rightarrow> nat \<Rightarrow> nat \<Rightarrow> 'a list \<Rightarrow> nat list \<Rightarrow> byte list
     \<Rightarrow> ('a list \<times> nat list) outcome option" where
  "Unserialize_impl_loop unser dflt sizeof_T nSize i nMid chunkSize v rs s =
     (if nMid < nSize then
        let nMid = size_t (nMid + min nSize (chunk_elems chunkSize sizeof_T));
            chunkSize = size_t (chunkSize * CHUNK_GROWTH_RATE);
            nMid = (if nMid > nSize then nSize else nMid);
            v = resize v nMid dflt;
            rs = rs @ [nMid]
        in case Unserialize_for unser nMid i v s of
             Thrown e (i, v) \<Rightarrow> Some (Thrown e (v, rs))
           | Done (i, v) s' \<Rightarrow>
               Unserialize_impl_loop unser dflt sizeof_T nSize i nMid chunkSize v rs s'
      else Some (Done (v, rs) s))"

definition Unserialize_impl_traced ::
  "'a unser \<Rightarrow> 'a \<Rightarrow> nat \<Rightarrow> byte list \<Rightarrow> 'a list \<Rightarrow> ('a list \<times> nat list) outcome option" where
  "Unserialize_impl_traced unser dflt sizeof_T s v =
     (let v = [] in
      case ReadCompactSize s of
        Inl e \<Rightarrow> Some (Thrown e (v, []))
      | Inr (nSize, s') \<Rightarrow>
          Unserialize_impl_loop unser dflt sizeof_T nSize 0 0 STARTING_CHUNK_SIZE v [] s')"

definition Unserialize_impl :: "'a unser \<Rightarrow> 'a \<Rightarrow> nat \<Rightarrow> byte list \<Rightarrow> 'a list \<Rightarrow> 'a list outcome option" where
  "Unserialize_impl unser dflt sizeof_T s v =
     map_option untraced (Unserialize_impl_traced unser dflt sizeof_T s v)"

text \<open>
  Two reference functions for stating what the loops compute. \<open>run_elems unser dflt k s\<close>
  decodes \<open>k\<close> elements one after the other, each into a value-initialised slot, with no
  chunking; when a decoder throws, it returns the elements decoded so far followed by the
  element that decoder was writing to.

  \<open>chunk_boundaries\<close> follows the words of the specification: start with a fixed chunk
  byte-budget, read one chunk, multiply the budget by three for the next chunk, clamped to
  the remaining declared length. It lists the number of elements the destination holds after
  each chunk, with unbounded arithmetic.
\<close>

fun run_elems :: "'a unser \<Rightarrow> 'a \<Rightarrow> nat \<Rightarrow> byte list \<Rightarrow> 'a list outcome" where
  "run_elems unser dflt 0 s = Done [] s"
| "run_elems unser dflt (Suc k) s =
     (case unser s dflt of
        Thrown e a \<Rightarrow> Thrown e [a]
      | Done a s' \<Rightarrow>
          (case run_elems unser dflt k s' of
             Done xs s'' \<Rightarrow> Done (a # xs) s''
           | Thrown e xs \<Rightarrow> Thrown e (a # xs)))"

function chunk_boundaries :: "nat \<Rightarrow> nat \<Rightarrow> nat \<Rightarrow> nat \<Rightarrow> nat list" where
  "chunk_boundaries sizeof_T n consumed budget =
     (if consumed < n then
        (let chunk = min (n - consumed) (1 + (budget - 1) div sizeof_T)
         in (consumed + chunk) # chunk_boundaries sizeof_T n (consumed + chunk) (budget * 3))
      else [])"
  by pat_completeness auto
termination
  by (relation "measure (\<lambda>(sizeof_T, n, consumed, budget). n - consumed)") auto

text \<open>
  \<open>chunks_until\<close> completes the policy of the specification: repeat until the declared length
  is consumed or the source underruns. Of the boundaries of \<open>chunk_boundaries\<close> it keeps those
  the source can fill, \<open>avail\<close> being the number of elements the source yields, and the first
  one it cannot fill, where the decode stops. \<open>elems_available\<close> is the number of elements,
  of \<open>n\<close> declared, that decode before the first decoder throws.
\<close>

definition chunks_until :: "nat \<Rightarrow> nat \<Rightarrow> nat \<Rightarrow> nat \<Rightarrow> nat \<Rightarrow> nat list" where
  "chunks_until sizeof_T n avail consumed budget =
     (let bs = chunk_boundaries sizeof_T n consumed budget
      in take (Suc (length (takeWhile (\<lambda>b. b \<le> avail) bs))) bs)"

definition elems_available :: "'a unser \<Rightarrow> 'a \<Rightarrow> nat \<Rightarrow> byte list \<Rightarrow> nat" where
  "elems_available unser dflt n s =
     (case run_elems unser dflt n s of Done ys s' \<Rightarrow> n | Thrown e ys \<Rightarrow> length ys - 1)"

section \<open>Pairs, maps and sets\<close>

text \<open>
  Lines 777-781, 794-807 and 817-827. The loops decode each item into a fresh local and call
  \<^verbatim>\<open>m.insert(hint, item)\<close>; by the C++ standard an insertion with a hint into \<^verbatim>\<open>std::map\<close> or
  \<^verbatim>\<open>std::set\<close> leaves the container unchanged when an equivalent key is present, which is
  \<open>map_insert\<close> and \<open>set_insert\<close>. The hint only affects the cost. A \<^verbatim>\<open>std::map\<close> is a
  finite map and a \<^verbatim>\<open>std::set\<close> a set; both decodes begin with \<^verbatim>\<open>m.clear()\<close>.
\<close>

definition Unserialize_pair :: "'k unser \<Rightarrow> 'v unser \<Rightarrow> ('k \<times> 'v) unser" where
  "Unserialize_pair unserK unserV s item =
     (case unserK s (fst item) of
        Thrown e a \<Rightarrow> Thrown e (a, snd item)
      | Done a s' \<Rightarrow>
          (case unserV s' (snd item) of
             Thrown e b \<Rightarrow> Thrown e (a, b)
           | Done b s'' \<Rightarrow> Done (a, b) s''))"

definition map_insert :: "('k \<rightharpoonup> 'v) \<Rightarrow> 'k \<times> 'v \<Rightarrow> ('k \<rightharpoonup> 'v)" where
  "map_insert m item = (if fst item \<in> dom m then m else m(fst item \<mapsto> snd item))"

function Unserialize_map_loop ::
  "('k \<times> 'v) unser \<Rightarrow> 'k \<times> 'v \<Rightarrow> nat \<Rightarrow> nat \<Rightarrow> ('k \<rightharpoonup> 'v) \<Rightarrow> byte list \<Rightarrow> ('k \<rightharpoonup> 'v) outcome" where
  "Unserialize_map_loop unser dflt nSize i m s =
     (if i < nSize then
        (case unser s dflt of
           Thrown e item \<Rightarrow> Thrown e m
         | Done item s' \<Rightarrow> Unserialize_map_loop unser dflt nSize (i + 1) (map_insert m item) s')
      else Done m s)"
  by pat_completeness auto
termination
  by (relation "measure (\<lambda>(unser, dflt, nSize, i, m, s). nSize - i)") auto

definition Unserialize_map ::
  "'k unser \<Rightarrow> 'v unser \<Rightarrow> 'k \<times> 'v \<Rightarrow> byte list \<Rightarrow> ('k \<rightharpoonup> 'v) \<Rightarrow> ('k \<rightharpoonup> 'v) outcome" where
  "Unserialize_map unserK unserV dflt s m =
     (let m = Map.empty in
      case ReadCompactSize s of
        Inl e \<Rightarrow> Thrown e m
      | Inr (nSize, s') \<Rightarrow> Unserialize_map_loop (Unserialize_pair unserK unserV) dflt nSize 0 m s')"

definition set_insert :: "'k set \<Rightarrow> 'k \<Rightarrow> 'k set" where
  "set_insert m key = (if key \<in> m then m else insert key m)"

function Unserialize_set_loop ::
  "'k unser \<Rightarrow> 'k \<Rightarrow> nat \<Rightarrow> nat \<Rightarrow> 'k set \<Rightarrow> byte list \<Rightarrow> 'k set outcome" where
  "Unserialize_set_loop unser dflt nSize i m s =
     (if i < nSize then
        (case unser s dflt of
           Thrown e key \<Rightarrow> Thrown e m
         | Done key s' \<Rightarrow> Unserialize_set_loop unser dflt nSize (i + 1) (set_insert m key) s')
      else Done m s)"
  by pat_completeness auto
termination
  by (relation "measure (\<lambda>(unser, dflt, nSize, i, m, s). nSize - i)") auto

definition Unserialize_set :: "'k unser \<Rightarrow> 'k \<Rightarrow> byte list \<Rightarrow> 'k set \<Rightarrow> 'k set outcome" where
  "Unserialize_set unser dflt s m =
     (let m = {} in
      case ReadCompactSize s of
        Inl e \<Rightarrow> Thrown e m
      | Inr (nSize, s') \<Rightarrow> Unserialize_set_loop unser dflt nSize 0 m s')"

section \<open>Serialization and the size computation\<close>

text \<open>
  The values the header can serialize, one constructor per overload of \<^verbatim>\<open>Serialize\<close>:
  fixed-width integers, floats and doubles by their bit image (lines 169-201), \<^verbatim>\<open>bool\<close>
  (237), \<^verbatim>\<open>CFlatData\<close> (429), \<^verbatim>\<open>CVarInt\<close> (445), \<^verbatim>\<open>CCompactSize\<close> (461), \<^verbatim>\<open>LimitedBytes\<close>
  (488), strings (616), vectors of bytes and of other elements (705-723, and 636-657 for
  \<^verbatim>\<open>prevector\<close>), pairs (772), maps (787), sets (810), smart pointers (833, 846), uuids
  (859, the first 16 bytes of the list given), and a class whose \<^verbatim>\<open>Serialize\<close> member serializes its fields with \<^verbatim>\<open>SerializeMany\<close>
  (951-962). A map is given by its pairs in iteration order.

  \<open>Serialize\<close> is written once over the stream: \<open>write\<close> is the stream's \<^verbatim>\<open>write\<close> and \<open>wcs\<close>
  the overload of \<^verbatim>\<open>WriteCompactSize\<close> that a call without template arguments selects for
  that stream type. \<^verbatim>\<open>CVarInt\<close> and \<^verbatim>\<open>CCompactSize\<close> call the templates with explicit
  template arguments, so they run the byte-writing code on every stream.
\<close>

datatype sval =
    VInt8 "8 word" | VInt16 "16 word" | VInt32 "32 word" | VInt64 "64 word"
  | VFloat "32 word" | VDouble "64 word" | VBool bool
  | VFlatData "byte list" | VVarInt nat | VCompactSize nat
  | VLimitedBytes "byte list" | VString "byte list" | VBytes "byte list"
  | VVector "sval list" | VPair sval sval | VMap "(sval \<times> sval) list" | VSet "sval list"
  | VUniquePtr sval | VSharedPtr sval | VUuid "byte list" | VObject "sval list"

function (sequential) Serialize ::
    "('s \<Rightarrow> byte list \<Rightarrow> 's) \<Rightarrow> ('s \<Rightarrow> nat \<Rightarrow> exception + 's) \<Rightarrow> 's \<Rightarrow> sval \<Rightarrow> exception + 's"
  and SerializeMany ::
    "('s \<Rightarrow> byte list \<Rightarrow> 's) \<Rightarrow> ('s \<Rightarrow> nat \<Rightarrow> exception + 's) \<Rightarrow> 's \<Rightarrow> sval list \<Rightarrow> exception + 's"
  and SerializePairs ::
    "('s \<Rightarrow> byte list \<Rightarrow> 's) \<Rightarrow> ('s \<Rightarrow> nat \<Rightarrow> exception + 's) \<Rightarrow> 's \<Rightarrow> (sval \<times> sval) list \<Rightarrow> exception + 's"
  where
  "Serialize write wcs s (VInt8 a) = Inr (ser_writedata8 write s (unat a))"
| "Serialize write wcs s (VInt16 a) = Inr (ser_writedata16 write s (unat a))"
| "Serialize write wcs s (VInt32 a) = Inr (ser_writedata32 write s (unat a))"
| "Serialize write wcs s (VInt64 a) = Inr (ser_writedata64 write s (unat a))"
| "Serialize write wcs s (VFloat a) = Inr (ser_writedata32 write s (unat a))"
| "Serialize write wcs s (VDouble a) = Inr (ser_writedata64 write s (unat a))"
| "Serialize write wcs s (VBool a) = Inr (ser_writedata8 write s (if a then 1 else 0))"
| "Serialize write wcs s (VFlatData bs) = Inr (write s bs)"
| "Serialize write wcs s (VVarInt n) = Inr (WriteVarInt write s n)"
| "Serialize write wcs s (VCompactSize n) = WriteCompactSize write s n"
| "Serialize write wcs s (VLimitedBytes bs) =
     bindE (wcs s (length bs)) (\<lambda>s'. Inr (if bs \<noteq> [] then write s' bs else s'))"
| "Serialize write wcs s (VString bs) =
     bindE (wcs s (length bs)) (\<lambda>s'. Inr (if bs \<noteq> [] then write s' bs else s'))"
| "Serialize write wcs s (VBytes bs) =
     bindE (wcs s (length bs)) (\<lambda>s'. Inr (if bs \<noteq> [] then write s' bs else s'))"
| "Serialize write wcs s (VVector xs) =
     bindE (wcs s (length xs)) (\<lambda>s'. SerializeMany write wcs s' xs)"
| "Serialize write wcs s (VPair a b) =
     bindE (Serialize write wcs s a) (\<lambda>s'. Serialize write wcs s' b)"
| "Serialize write wcs s (VMap m) =
     bindE (wcs s (length m)) (\<lambda>s'. SerializePairs write wcs s' m)"
| "Serialize write wcs s (VSet m) =
     bindE (wcs s (length m)) (\<lambda>s'. SerializeMany write wcs s' m)"
| "Serialize write wcs s (VUniquePtr p) = Serialize write wcs s p"
| "Serialize write wcs s (VSharedPtr p) = Serialize write wcs s p"
| "Serialize write wcs s (VUuid bs) = Inr (write s (take 16 bs))"
| "Serialize write wcs s (VObject fields) = SerializeMany write wcs s fields"
| "SerializeMany write wcs s [] = Inr s"
| "SerializeMany write wcs s (arg # args) =
     bindE (Serialize write wcs s arg) (\<lambda>s'. SerializeMany write wcs s' args)"
| "SerializePairs write wcs s [] = Inr s"
| "SerializePairs write wcs s ((a, b) # ps) =
     bindE (bindE (Serialize write wcs s a) (\<lambda>s'. Serialize write wcs s' b))
       (\<lambda>s'. SerializePairs write wcs s' ps)"
  by pat_completeness auto
termination
  by (relation "measure (case_sum (\<lambda>(write, wcs, s, v). size v)
        (case_sum (\<lambda>(write, wcs, s, xs). size_list size xs)
                  (\<lambda>(write, wcs, s, ps). size_list (size_prod size size) ps)))")
     auto

text \<open>
  The values that a run of \<open>Serialize\<close> passes to \<open>WriteCompactSize\<close>, in the order of the
  calls: the value of a \<^verbatim>\<open>CCompactSize\<close> and the length of every string, byte array, vector,
  map and set.
\<close>

function (sequential) compact_sizes :: "sval \<Rightarrow> nat list"
  and compact_sizes_many :: "sval list \<Rightarrow> nat list"
  and compact_sizes_pairs :: "(sval \<times> sval) list \<Rightarrow> nat list"
  where
  "compact_sizes (VCompactSize n) = [n]"
| "compact_sizes (VLimitedBytes bs) = [length bs]"
| "compact_sizes (VString bs) = [length bs]"
| "compact_sizes (VBytes bs) = [length bs]"
| "compact_sizes (VVector xs) = length xs # compact_sizes_many xs"
| "compact_sizes (VPair a b) = compact_sizes a @ compact_sizes b"
| "compact_sizes (VMap m) = length m # compact_sizes_pairs m"
| "compact_sizes (VSet m) = length m # compact_sizes_many m"
| "compact_sizes (VUniquePtr p) = compact_sizes p"
| "compact_sizes (VSharedPtr p) = compact_sizes p"
| "compact_sizes (VObject fields) = compact_sizes_many fields"
| "compact_sizes v = []"
| "compact_sizes_many [] = []"
| "compact_sizes_many (arg # args) = compact_sizes arg @ compact_sizes_many args"
| "compact_sizes_pairs [] = []"
| "compact_sizes_pairs ((a, b) # ps) = (compact_sizes a @ compact_sizes b) @ compact_sizes_pairs ps"
  by pat_completeness auto
termination
  by (relation "measure (case_sum size
        (case_sum (size_list size) (size_list (size_prod size size))))")
     auto

text \<open>
  \<^verbatim>\<open>CSizeComputer\<close> (lines 924-949) keeps a \<^verbatim>\<open>size_t\<close> tally; \<^verbatim>\<open>write\<close> and \<^verbatim>\<open>seek\<close> add to it.
  Lines 989-995 are its overloads of \<open>WriteVarInt\<close> and \<open>WriteCompactSize\<close>, lines 997-1005
  \<open>GetSerializeSize\<close>. \<open>Serialize_bytes\<close> is the same serialization into an empty byte sink.
\<close>

definition CSizeComputer_write :: "nat \<Rightarrow> byte list \<Rightarrow> nat" where
  "CSizeComputer_write nSize psz = size_t (nSize + length psz)"

definition CSizeComputer_seek :: "nat \<Rightarrow> nat \<Rightarrow> nat" where
  "CSizeComputer_seek nSize n = size_t (nSize + n)"

definition WriteVarInt_CSizeComputer :: "nat \<Rightarrow> nat \<Rightarrow> nat" where
  "WriteVarInt_CSizeComputer s n = CSizeComputer_seek s (GetSizeOfVarInt n)"

definition WriteCompactSize_CSizeComputer :: "nat \<Rightarrow> nat \<Rightarrow> exception + nat" where
  "WriteCompactSize_CSizeComputer s nSize = Inr (CSizeComputer_seek s (GetSizeOfCompactSize nSize))"

definition GetSerializeSize :: "sval \<Rightarrow> exception + nat" where
  "GetSerializeSize t = Serialize CSizeComputer_write WriteCompactSize_CSizeComputer 0 t"

definition Serialize_bytes :: "sval \<Rightarrow> exception + byte list" where
  "Serialize_bytes t = Serialize byte_sink_write (WriteCompactSize byte_sink_write) [] t"

section \<open>Properties\<close>

declare GetSizeOfVarInt_loop.simps [simp del]
declare WriteVarInt_tmp.simps [simp del]
declare ReadVarInt_loop.simps [simp del]

lemma bindE_simps [simp]:
  "bindE (Inl e) f = Inl e"
  "bindE (Inr x) f = f x"
  by (simp_all add: bindE_def)

lemma and_7F: "(n::nat) AND 0x7F = n mod 128"
proof -
  have "(n::nat) AND mask 7 = n mod 2 ^ 7" by (simp only: take_bit_eq_mask [symmetric] take_bit_eq_mod)
  then show ?thesis by (simp add: mask_eq_exp_minus_1)
qed

lemma push_bit_or_low:
  fixes n d :: nat
  assumes "d < 2 ^ k"
  shows "push_bit k n OR d = n * 2 ^ k + d"
proof -
  have d: "take_bit k d = d" using assms by (simp add: take_bit_nat_eq_self)
  have "push_bit k n + take_bit k d = push_bit k n OR take_bit k d"
    by (rule disjunctive_add) (auto simp: bit_simps)
  then show ?thesis by (simp add: d push_bit_eq_mult)
qed

lemma or_80: "x < 128 \<Longrightarrow> (x::nat) OR 0x80 = x + 128"
  using push_bit_or_low [of x 7 1] by (simp add: or.commute)

lemma and_80: "((c::nat) AND 0x80 = 0) = even (c div 128)"
proof -
  have "bit c 7 = (c AND push_bit 7 1 \<noteq> 0)" by (rule bit_iff_and_push_bit_not_eq_0)
  then show ?thesis by (auto simp: bit_iff_odd)
qed

lemma and_80_byte: "c < 256 \<Longrightarrow> ((c::nat) AND 0x80 = 0) = (c < 128)"
proof (cases "c < 128")
  case True
  then show ?thesis by (simp add: and_80)
next
  case False
  assume "c < 256"
  with False have "c div 128 = 1" by simp
  with False show ?thesis by (simp add: and_80)
qed

lemma WriteVarInt_tmp_arith:
  "WriteVarInt_tmp n len =
     (n mod 128 + (if len \<noteq> 0 then 128 else 0)) #
     (if n \<le> 127 then [] else WriteVarInt_tmp (n div 128 - 1) (len + 1))"
  by (subst WriteVarInt_tmp.simps) (simp add: and_7F or_80 drop_bit_eq_div)

lemma WriteVarInt_tmp_len: "len \<noteq> 0 \<Longrightarrow> WriteVarInt_tmp n len = WriteVarInt_tmp n (Suc 0)"
proof (induction n arbitrary: len rule: less_induct)
  case (less n)
  show ?case
  proof (cases "n \<le> 127")
    case True
    then show ?thesis using less.prems
      by (subst WriteVarInt_tmp_arith, subst (2) WriteVarInt_tmp_arith) simp
  next
    case False
    then have lt: "n div 128 - 1 < n" by simp
    have "WriteVarInt_tmp (n div 128 - 1) (len + 1) = WriteVarInt_tmp (n div 128 - 1) (Suc 0)"
      by (rule less.IH [OF lt]) simp
    moreover have "WriteVarInt_tmp (n div 128 - 1) (1 + 1) = WriteVarInt_tmp (n div 128 - 1) (Suc 0)"
      by (rule less.IH [OF lt]) simp
    ultimately show ?thesis using less.prems False
      by (subst WriteVarInt_tmp_arith, subst (2) WriteVarInt_tmp_arith) simp
  qed
qed

lemma WriteVarInt_tmp_arith1:
  "WriteVarInt_tmp M (Suc 0) =
     (M mod 128 + 128) # (if M \<le> 127 then [] else WriteVarInt_tmp (M div 128 - 1) (Suc 0))"
proof -
  have "WriteVarInt_tmp (M div 128 - 1) (1 + 1) = WriteVarInt_tmp (M div 128 - 1) (Suc 0)"
    by (rule WriteVarInt_tmp_len) simp
  then show ?thesis by (subst WriteVarInt_tmp_arith) simp
qed

lemma WriteVarInt_tmp_arith0:
  "WriteVarInt_tmp N 0 =
     (N mod 128) # (if N \<le> 127 then [] else WriteVarInt_tmp (N div 128 - 1) (Suc 0))"
  by (subst WriteVarInt_tmp_arith) simp

lemma rev_tmp0:
  "rev (WriteVarInt_tmp N 0) =
     (if N \<le> 127 then [] else rev (WriteVarInt_tmp (N div 128 - 1) (Suc 0))) @ [N mod 128]"
  by (subst WriteVarInt_tmp_arith0) simp

lemma rev_tmp1:
  "rev (WriteVarInt_tmp M (Suc 0)) =
     (if M \<le> 127 then [] else rev (WriteVarInt_tmp (M div 128 - 1) (Suc 0))) @ [M mod 128 + 128]"
  by (subst WriteVarInt_tmp_arith1) simp

lemma foldl_ser_writedata8:
  "foldl (ser_writedata8 byte_sink_write) os xs = os @ map of_nat xs"
  by (induction xs arbitrary: os) (simp_all add: ser_writedata8_def byte_sink_write_def)

lemma WriteVarInt_bytes:
  "WriteVarInt byte_sink_write os n = os @ map of_nat (rev (WriteVarInt_tmp n 0))"
  by (simp add: WriteVarInt_def foldl_ser_writedata8)

lemma length_tmp1: "M < 128 ^ k \<Longrightarrow> 0 < k \<Longrightarrow> length (WriteVarInt_tmp M (Suc 0)) \<le> k"
proof (induction k arbitrary: M)
  case 0
  then show ?case by simp
next
  case (Suc k)
  show ?case
  proof (cases "M \<le> 127")
    case True
    then show ?thesis by (subst WriteVarInt_tmp_arith1) simp
  next
    case False
    with Suc.prems have k: "0 < k" by (cases k) auto
    from Suc.prems have "M div 128 < 128 ^ k"
      by (simp add: less_mult_imp_div_less mult.commute)
    then have "M div 128 - 1 < 128 ^ k" by simp
    from Suc.IH [OF this k] False show ?thesis
      by (subst WriteVarInt_tmp_arith1) simp
  qed
qed

lemma ser_readdata8_cases:
  "ser_readdata8 s = (case s of [] \<Rightarrow> Inl end_of_data | b # s' \<Rightarrow> Inr (unat b, s'))"
  by (cases s) (simp_all add: ser_readdata8_def read_def)

lemma ReadVarInt_loop_arith:
  assumes "overflow < 2 ^ 57"
  shows "ReadVarInt_loop overflow i n s =
     (if i < 10 then
        if n > overflow then Inl (runtime_error ''Deserialisation Error ReadVarInt'')
        else (case s of [] \<Rightarrow> Inl end_of_data
              | b # s' \<Rightarrow>
                  if unat b < 128 then Inr (n * 128 + unat b, s')
                  else ReadVarInt_loop overflow (i + 1) ((n * 128 + unat b mod 128 + 1) mod 2 ^ 64) s')
      else Inl (runtime_error ''Deserialisation Error ReadVarInt''))"
proof (cases "i < 10 \<and> n \<le> overflow")
  case False
  then show ?thesis by (subst ReadVarInt_loop.simps) (auto simp: maxSize_def)
next
  case True
  with assms have n: "n * 128 < 2 ^ 64" by simp
  have tb: "push_bit 7 n mod 18446744073709551616 = n * 128"
    using n by (simp add: push_bit_eq_mult)
  have orl: "\<And>c::nat. n * 128 OR (c AND 0x7F) = n * 128 + c mod 128"
    using push_bit_or_low [of _ 7 n] by (simp add: and_7F push_bit_eq_mult)
  show ?thesis
  proof (cases s)
    case Nil
    with True show ?thesis
      by (subst ReadVarInt_loop.simps) (simp add: maxSize_def ser_readdata8_cases)
  next
    case (Cons b s')
    have "unat b < 2 ^ LENGTH(8)" by (rule unsigned_less)
    then have b: "unat b < 256" by simp
    from True Cons show ?thesis
      by (subst ReadVarInt_loop.simps)
         (simp add: maxSize_def ser_readdata8_cases tb orl and_80_byte [OF b] take_bit_eq_mod Let_def)
  qed
qed

lemma of_nat_byte_unat: "c < 256 \<Longrightarrow> unat (of_nat c :: byte) = c"
  by (simp add: unat_of_nat)

lemma run_hi:
  assumes ov: "overflow < 2 ^ 57"
  shows "M < 2 ^ 57 \<Longrightarrow>
    ReadVarInt_loop overflow 0 0 (map of_nat (rev (WriteVarInt_tmp M (Suc 0))) @ bs) =
      (if M div 128 \<le> overflow
       then ReadVarInt_loop overflow (length (WriteVarInt_tmp M (Suc 0))) (M + 1) bs
       else Inl (runtime_error ''Deserialisation Error ReadVarInt''))"
proof (induction M arbitrary: bs rule: less_induct)
  case (less M)
  define c where "c = M mod 128 + 128"
  have c256: "c < 256" and c128: "\<not> c < 128" and cmod: "c mod 128 = M mod 128"
    by (simp_all add: c_def)
  have byte: "unat (of_nat c :: byte) = c"
    by (rule of_nat_byte_unat [OF c256])
  have tmpM: "WriteVarInt_tmp M (Suc 0) =
      c # (if M \<le> 127 then [] else WriteVarInt_tmp (M div 128 - 1) (Suc 0))"
    unfolding c_def by (rule WriteVarInt_tmp_arith1)
  show ?case
  proof (cases "M \<le> 127")
    case True
    then have M0: "M div 128 = 0" by simp
    from True have tmp: "WriteVarInt_tmp M (Suc 0) = [c]"
      by (subst tmpM) simp
    have "(c mod 128 + 1) mod 2 ^ 64 = M + 1"
      using True by (simp add: cmod)
    then show ?thesis
      unfolding tmp
      by (subst ReadVarInt_loop_arith [OF ov]) (simp add: byte c128 M0)
  next
    case False
    define M' where "M' = M div 128 - 1"
    have M'lt: "M' < M" using False by (simp add: M'_def)
    have M'57: "M' < 2 ^ 57" using less.prems M'lt by simp
    have M'50: "M' < 128 ^ 8" using less.prems by (simp add: M'_def)
    have len: "length (WriteVarInt_tmp M' (Suc 0)) \<le> 8"
      by (rule length_tmp1 [OF M'50]) simp
    have M'1: "M' + 1 = M div 128" using False by (simp add: M'_def)
    have mono: "M' div 128 \<le> M div 128" using M'1 by (metis div_le_dividend le_add1 le_trans)
    have recomb: "(M div 128 * 128 + c mod 128 + 1) mod 2 ^ 64 = M + 1"
      using less.prems by (simp add: cmod)
    have tmp: "WriteVarInt_tmp M (Suc 0) = c # WriteVarInt_tmp M' (Suc 0)"
      using False by (subst tmpM) (simp add: M'_def)
    have step: "ReadVarInt_loop overflow (length (WriteVarInt_tmp M' (Suc 0))) (M' + 1)
          ((of_nat c :: byte) # bs) =
        (if M div 128 \<le> overflow
         then ReadVarInt_loop overflow (length (WriteVarInt_tmp M (Suc 0))) (M + 1) bs
         else Inl (runtime_error ''Deserialisation Error ReadVarInt''))"
      using len recomb unfolding M'1 tmp
      by (subst ReadVarInt_loop_arith [OF ov]) (simp add: byte c128)
    have "ReadVarInt_loop overflow 0 0 (map of_nat (rev (WriteVarInt_tmp M (Suc 0))) @ bs) =
        ReadVarInt_loop overflow 0 0 (map of_nat (rev (WriteVarInt_tmp M' (Suc 0))) @ ((of_nat c :: byte) # bs))"
      by (simp add: tmp)
    also have "\<dots> = (if M' div 128 \<le> overflow
       then ReadVarInt_loop overflow (length (WriteVarInt_tmp M' (Suc 0))) (M' + 1) ((of_nat c :: byte) # bs)
       else Inl (runtime_error ''Deserialisation Error ReadVarInt''))"
      by (rule less.IH [OF M'lt M'57])
    also have "\<dots> = (if M div 128 \<le> overflow
         then ReadVarInt_loop overflow (length (WriteVarInt_tmp M (Suc 0))) (M + 1) bs
         else Inl (runtime_error ''Deserialisation Error ReadVarInt''))"
      using mono step by auto
    finally show ?thesis .
  qed
qed

lemma ReadVarInt_loop_encoded:
  assumes ov: "overflow < 2 ^ 57" and N: "N < 2 ^ 64"
  shows "ReadVarInt_loop overflow 0 0 (map of_nat (rev (WriteVarInt_tmp N 0)) @ rest) =
      (if N div 128 \<le> overflow then Inr (N, rest)
       else Inl (runtime_error ''Deserialisation Error ReadVarInt''))"
proof -
  define c where "c = N mod 128"
  have c256: "c < 256" and c128: "c < 128" by (simp_all add: c_def)
  have byte: "unat (of_nat c :: byte) = c"
    by (rule of_nat_byte_unat [OF c256])
  have tmpN: "WriteVarInt_tmp N 0 =
      c # (if N \<le> 127 then [] else WriteVarInt_tmp (N div 128 - 1) (Suc 0))"
    unfolding c_def by (rule WriteVarInt_tmp_arith0)
  show ?thesis
  proof (cases "N \<le> 127")
    case True
    then have N0: "N div 128 = 0" and cN: "c = N" by (simp_all add: c_def)
    from True have tmp: "WriteVarInt_tmp N 0 = [c]" by (subst tmpN) simp
    have "ReadVarInt_loop overflow 0 0 (map of_nat (rev [c]) @ rest) = Inr (c, rest)"
      by (subst ReadVarInt_loop_arith [OF ov]) (simp add: byte c128)
    then show ?thesis
      unfolding tmp by (simp add: N0 cN)
  next
    case False
    define M where "M = N div 128 - 1"
    have M1: "M + 1 = N div 128" using False by (simp add: M_def)
    have M57: "M < 2 ^ 57" using N by (simp add: M_def)
    have M63: "M < 128 ^ 9" using N by (simp add: M_def)
    have len: "length (WriteVarInt_tmp M (Suc 0)) \<le> 9"
      by (rule length_tmp1 [OF M63]) simp
    have mono: "M div 128 \<le> N div 128" using M1 by (metis div_le_dividend le_add1 le_trans)
    have recomb: "N div 128 * 128 + c = N" by (simp add: c_def)
    have tmp: "WriteVarInt_tmp N 0 = c # WriteVarInt_tmp M (Suc 0)"
      using False by (subst tmpN) (simp add: M_def)
    have step: "ReadVarInt_loop overflow (length (WriteVarInt_tmp M (Suc 0))) (M + 1)
          ((of_nat c :: byte) # rest) =
        (if N div 128 \<le> overflow then Inr (N, rest)
         else Inl (runtime_error ''Deserialisation Error ReadVarInt''))"
      using len recomb unfolding M1
      by (subst ReadVarInt_loop_arith [OF ov]) (simp add: byte c128)
    have "ReadVarInt_loop overflow 0 0 (map of_nat (rev (WriteVarInt_tmp N 0)) @ rest) =
        ReadVarInt_loop overflow 0 0
          (map of_nat (rev (WriteVarInt_tmp M (Suc 0))) @ ((of_nat c :: byte) # rest))"
      by (simp add: tmp)
    also have "\<dots> = (if M div 128 \<le> overflow
       then ReadVarInt_loop overflow (length (WriteVarInt_tmp M (Suc 0))) (M + 1)
              ((of_nat c :: byte) # rest)
       else Inl (runtime_error ''Deserialisation Error ReadVarInt''))"
      by (rule run_hi [OF ov M57])
    also have "\<dots> = (if N div 128 \<le> overflow then Inr (N, rest)
         else Inl (runtime_error ''Deserialisation Error ReadVarInt''))"
      using mono step by auto
    finally show ?thesis .
  qed
qed

lemma drop_bit_7_bound: "imax < 2 ^ 64 \<Longrightarrow> drop_bit 7 (imax::nat) < 2 ^ 57"
  by (simp add: drop_bit_eq_div)

lemma ReadVarInt_uintmax_encoded:
  assumes "imax < 2 ^ 64" and "N < 2 ^ 64"
  shows "ReadVarInt_uintmax imax (WriteVarInt byte_sink_write [] N @ rest) =
      (if N div 128 \<le> imax div 128 then Inr (N, rest)
       else Inl (runtime_error ''Deserialisation Error ReadVarInt''))"
  using ReadVarInt_loop_encoded [OF drop_bit_7_bound [OF assms(1)] assms(2), of rest]
  by (simp add: ReadVarInt_uintmax_def WriteVarInt_bytes drop_bit_eq_div)

text \<open>The maximum of an unsigned integer type of \<open>k\<close> bits is \<open>2 ^ k - 1\<close>.\<close>
lemma div128_le_iff:
  assumes "imax + 1 = 2 ^ k" and "7 \<le> k"
  shows "(N div 128 \<le> imax div 128) = (N \<le> (imax::nat))"
proof -
  obtain j where k: "k = 7 + j" using assms(2) by (metis le_Suc_ex)
  have "imax + 1 = 128 * 2 ^ j" using assms(1) by (simp add: k power_add)
  then have "imax = 128 * (2 ^ j - 1) + 127"
    by (simp add: algebra_simps)
  then have q: "imax div 128 = 2 ^ j - 1" and r: "imax mod 128 = 127" by simp_all
  show ?thesis
  proof
    assume "N div 128 \<le> imax div 128"
    then have "N div 128 * 128 \<le> imax div 128 * 128" by simp
    moreover have "N = N div 128 * 128 + N mod 128" by simp
    moreover have "imax = imax div 128 * 128 + 127" using r by (metis div_mult_mod_eq)
    moreover have "N mod 128 \<le> 127" by simp
    ultimately show "N \<le> imax" by linarith
  next
    assume "N \<le> imax" then show "N div 128 \<le> imax div 128" by (rule div_le_mono)
  qed
qed

lemma pow128_le: "k \<le> 10 \<Longrightarrow> (128::nat) ^ k \<le> 1180591620717411303424"
proof -
  assume "k \<le> 10"
  then have "(128::nat) ^ k \<le> 128 ^ 10" by (intro power_increasing) simp_all
  then show ?thesis by simp
qed

lemma ReadVarInt_loop_inv:
  assumes ov: "overflow < 2 ^ 57"
  shows "ReadVarInt_loop overflow i n s = Inr (v, rest) \<Longrightarrow>
     128 ^ i \<le> 127 * n + 1 \<Longrightarrow> 127 * n + 128 \<le> 128 ^ (i + 1) \<Longrightarrow>
     \<exists>p. s = map of_nat p @ rest \<and> p \<noteq> [] \<and>
       (if n = 0 then [] else rev (WriteVarInt_tmp (n - 1) (Suc 0))) @ p = rev (WriteVarInt_tmp v 0) \<and>
       v \<le> overflow * 128 + 127 \<and>
       i + length p \<le> 10 \<and>
       128 ^ (i + length p - 1) \<le> 127 * overflow + 1"
proof (induction s arbitrary: i n)
  case Nil
  then show ?case by (subst (asm) ReadVarInt_loop_arith [OF ov]) (simp split: if_splits)
next
  case (Cons b s')
  define c where "c = unat b"
  have "unat b < 2 ^ LENGTH(8)" by (rule unsigned_less)
  then have c256: "c < 256" by (simp add: c_def)
  have bc: "b = of_nat c" by (simp add: c_def)
  from Cons.prems(1) have i10: "i < 10" and nov: "n \<le> overflow"
    by (subst (asm) ReadVarInt_loop_arith [OF ov], simp split: if_splits)+
  have low: "128 ^ i \<le> 127 * overflow + 1"
    using Cons.prems(2) nov by (meson add_le_mono1 le_trans mult_le_mono2)
  show ?case
  proof (cases "c < 128")
    case True
    with Cons.prems(1) i10 nov have v: "v = n * 128 + c" and rest: "rest = s'"
      by (subst (asm) ReadVarInt_loop_arith [OF ov], simp add: c_def)+
    have enc: "(if n = 0 then [] else rev (WriteVarInt_tmp (n - 1) (Suc 0))) @ [c]
        = rev (WriteVarInt_tmp v 0)"
      using True by (subst rev_tmp0) (auto simp: v)
    have "v \<le> overflow * 128 + 127" using True nov by (simp add: v)
    with enc i10 low show ?thesis
      by (intro exI [of _ "[c]"]) (simp add: rest bc)
  next
    case False
    define n' where "n' = n * 128 + c mod 128 + 1"
    have inv2: "127 * n' + 128 \<le> 128 ^ (i + 2)"
    proof -
      have "127 * n' + 128 \<le> 128 * (127 * n + 128)" by (simp add: n'_def) 
      also have "\<dots> \<le> 128 * 128 ^ (i + 1)" using Cons.prems(3) by simp
      finally show ?thesis by simp
    qed
    have inv1: "128 ^ (i + 1) \<le> 127 * n' + 1"
    proof -
      have "(128::nat) ^ (i + 1) = 128 * 128 ^ i" by simp
      also have "\<dots> \<le> 128 * (127 * n + 1)" using Cons.prems(2) by simp
      also have "\<dots> \<le> 127 * n' + 1" by (simp add: n'_def)
      finally show ?thesis .
    qed
    from Cons.prems(1) i10 nov False
    have rec: "ReadVarInt_loop overflow (i + 1) (n' mod 2 ^ 64) s' = Inr (v, rest)"
      by (subst (asm) ReadVarInt_loop_arith [OF ov]) (simp add: c_def n'_def)
    then have i9: "i + 1 < 10"
      by (subst (asm) ReadVarInt_loop_arith [OF ov]) (simp split: if_splits)
    have "127 * n' + 128 \<le> 1180591620717411303424"
      using inv2 pow128_le [of "i + 2"] i9 by simp
    then have nowrap: "n' mod 2 ^ 64 = n'" by simp
    from Cons.IH [OF rec [unfolded nowrap]] inv1 inv2
    obtain p where p: "s' = map of_nat p @ rest" "p \<noteq> []"
      "rev (WriteVarInt_tmp (n' - 1) (Suc 0)) @ p = rev (WriteVarInt_tmp v 0)"
      "v \<le> overflow * 128 + 127" "i + 1 + length p \<le> 10"
      "128 ^ (i + 1 + length p - 1) \<le> 127 * overflow + 1"
      by (auto simp: n'_def)
    from False c256 have "c div 128 = 1" by simp
    with div_mult_mod_eq [of c 128] have cdec: "c mod 128 + 128 = c" by simp
    have "rev (WriteVarInt_tmp (n' - 1) (Suc 0)) =
        (if n = 0 then [] else rev (WriteVarInt_tmp (n - 1) (Suc 0))) @ [c]"
      by (subst rev_tmp1) (auto simp: n'_def cdec)
    with p show ?thesis
      by (intro exI [of _ "c # p"]) (simp add: bc)
  qed
qed

lemma htole_numeral [simp]:
  "htole (numeral k) obj = of_nat obj # htole (pred_numeral k) (obj div 256)"
proof -
  have "htole (Suc (pred_numeral k)) obj = of_nat obj # htole (pred_numeral k) (obj div 256)"
    by (rule htole.simps)
  then show ?thesis by (simp only: numeral_eq_Suc)
qed

lemma htole_One [simp]: "htole 1 obj = [of_nat obj]"
  by simp

lemma length_htole [simp]: "length (htole k obj) = k"
  by (induction k arbitrary: obj) simp_all

lemma htole_letoh: "htole (length p) (letoh p) = p"
proof (induction p)
  case Nil
  then show ?case by simp
next
  case (Cons b p)
  have b: "unat b < 256" using unsigned_less [of b, where 'a = nat] by simp
  have "(of_nat (unat b + 256 * letoh p) :: byte) = of_nat (unat b)"
    by (simp only: word_of_nat_eq_iff) (simp add: take_bit_eq_mod)
  then have "(of_nat (unat b + 256 * letoh p) :: byte) = b"
    by (simp only: of_nat_unat ucast_id)
  moreover have "(unat b + 256 * letoh p) div 256 = letoh p"
    using b by simp
  ultimately show ?case using Cons.IH by simp
qed

lemma letoh_bound: "letoh p < 256 ^ length p"
proof (induction p)
  case Nil
  then show ?case by simp
next
  case (Cons b p)
  have "unat b < 256" using unsigned_less [of b, where 'a = nat] by simp
  with Cons.IH show ?case by simp
qed

lemma read_append: "length p = k \<Longrightarrow> read (p @ rest) k = Inr (p, rest)"
  by (simp add: read_def)

lemma ser_readdata8_Cons: "ser_readdata8 (b # s) = Inr (unat b, s)"
  by (simp add: ser_readdata8_cases)

lemma ser_readdata16_append: "length p = 2 \<Longrightarrow> ser_readdata16 (p @ rest) = Inr (letoh p, rest)"
  by (simp add: ser_readdata16_def read_append)

lemma ser_readdata32_append: "length p = 4 \<Longrightarrow> ser_readdata32 (p @ rest) = Inr (letoh p, rest)"
  by (simp add: ser_readdata32_def read_append)

lemma ser_readdata64_append: "length p = 8 \<Longrightarrow> ser_readdata64 (p @ rest) = Inr (letoh p, rest)"
  by (simp add: ser_readdata64_def read_append)

lemma ReadCompactSize_253:
  "length p = 2 \<Longrightarrow> ReadCompactSize (0xFD # p @ rest) =
     (if letoh p < 253 then Inl (ios_failure ''non-canonical ReadCompactSize()'')
      else Inr (letoh p, rest))"
  using letoh_bound [of p]
  by (simp add: ReadCompactSize_def ser_readdata8_Cons ser_readdata16_append MAX_SIZE_def)

lemma ReadCompactSize_254:
  "length p = 4 \<Longrightarrow> ReadCompactSize (0xFE # p @ rest) =
     (if letoh p < 65536 then Inl (ios_failure ''non-canonical ReadCompactSize()'')
      else Inr (letoh p, rest))"
  using letoh_bound [of p]
  by (simp add: ReadCompactSize_def ser_readdata8_Cons ser_readdata32_append MAX_SIZE_def)

lemma ReadCompactSize_255:
  "length p = 8 \<Longrightarrow> ReadCompactSize (0xFF # p @ rest) =
     (if letoh p < 4294967296 then Inl (ios_failure ''non-canonical ReadCompactSize()'')
      else Inl (ios_failure ''ReadCompactSize(): size too large''))"
  by (simp add: ReadCompactSize_def ser_readdata8_Cons ser_readdata64_append MAX_SIZE_def)

lemma ReadCompactSize_small:
  "unat b < 253 \<Longrightarrow> ReadCompactSize (b # rest) = Inr (unat b, rest)"
  by (simp add: ReadCompactSize_def ser_readdata8_Cons MAX_SIZE_def)

lemma WriteCompactSize_bytes:
  "WriteCompactSize byte_sink_write os n =
     (if n > 4294967295 then Inl (ios_failure ''WriteCompactSize(): size too large'')
      else if n < 253 then Inr (os @ [of_nat n])
      else if n \<le> 65535 then Inr (os @ 0xFD # htole 2 n)
      else Inr (os @ 0xFE # htole 4 n))"
  by (simp add: WriteCompactSize_def MAX_SIZE_def ser_writedata8_def ser_writedata16_def
      ser_writedata32_def byte_sink_write_def)

lemma ReadCompactSize_canonical:
  assumes "ReadCompactSize s = Inr (n, rest)"
  shows "WriteCompactSize byte_sink_write [] n = Inr (take (length s - length rest) s) \<and>
         s = take (length s - length rest) s @ rest"
proof (cases s)
  case Nil
  with assms show ?thesis by (simp add: ReadCompactSize_def ser_readdata8_cases)
next
  case (Cons b s1)
  have b256: "unat b < 256" using unsigned_less [of b, where 'a = nat] by simp
  consider "unat b < 253" | "unat b = 253" | "unat b = 254" | "unat b = 255"
    using b256 by linarith
  then show ?thesis
  proof cases
    case 1
    with assms Cons have "n = unat b" "rest = s1"
      by (simp_all add: ReadCompactSize_small)
    with 1 Cons show ?thesis by (simp add: WriteCompactSize_bytes)
  next
    case 2
    then have b: "b = 0xFD" by (simp add: word_unat_eq_iff)
    show ?thesis
    proof (cases "length s1 < 2")
      case True
      with assms Cons 2 show ?thesis
        by (simp add: ReadCompactSize_def ser_readdata8_Cons ser_readdata16_def read_def)
    next
      case False
      then have sp: "s1 = take 2 s1 @ drop 2 s1" and len: "length (take 2 s1) = 2" by simp_all
      from assms have "ReadCompactSize (0xFD # take 2 s1 @ drop 2 s1) = Inr (n, rest)"
        using Cons b sp by simp
      then have n: "n = letoh (take 2 s1)" "rest = drop 2 s1" "\<not> letoh (take 2 s1) < 253"
        unfolding ReadCompactSize_253 [OF len] by (simp_all split: if_splits)
      have "n < 65536" using letoh_bound [of "take 2 s1"] len n(1) by simp
      moreover have "htole 2 n = take 2 s1" using htole_letoh [of "take 2 s1"] len n(1) by simp
      ultimately show ?thesis using n False Cons b
        by (simp add: WriteCompactSize_bytes del: htole_numeral)
    qed
  next
    case 3
    then have b: "b = 0xFE" by (simp add: word_unat_eq_iff)
    show ?thesis
    proof (cases "length s1 < 4")
      case True
      with assms Cons 3 show ?thesis
        by (simp add: ReadCompactSize_def ser_readdata8_Cons ser_readdata32_def read_def)
    next
      case False
      then have sp: "s1 = take 4 s1 @ drop 4 s1" and len: "length (take 4 s1) = 4" by simp_all
      from assms have "ReadCompactSize (0xFE # take 4 s1 @ drop 4 s1) = Inr (n, rest)"
        using Cons b sp by simp
      then have n: "n = letoh (take 4 s1)" "rest = drop 4 s1" "\<not> letoh (take 4 s1) < 65536"
        unfolding ReadCompactSize_254 [OF len] by (simp_all split: if_splits)
      have "n < 4294967296" using letoh_bound [of "take 4 s1"] len n(1) by simp
      moreover have "htole 4 n = take 4 s1" using htole_letoh [of "take 4 s1"] len n(1) by simp
      ultimately show ?thesis using n False Cons b
        by (simp add: WriteCompactSize_bytes del: htole_numeral)
    qed
  next
    case 4
    then have b: "b = 0xFF" by (simp add: word_unat_eq_iff)
    show ?thesis
    proof (cases "length s1 < 8")
      case True
      with assms Cons 4 show ?thesis
        by (simp add: ReadCompactSize_def ser_readdata8_Cons ser_readdata64_def read_def)
    next
      case False
      then have sp: "s1 = take 8 s1 @ drop 8 s1" and len: "length (take 8 s1) = 8" by simp_all
      from assms have "ReadCompactSize (0xFF # take 8 s1 @ drop 8 s1) = Inr (n, rest)"
        using Cons b sp by simp
      then show ?thesis
        unfolding ReadCompactSize_255 [OF len] by (simp split: if_splits)
    qed
  qed
qed

text \<open>
  Claim C1. WriteCompactSize emits exactly the bytes of the wire table, and ReadCompactSize
  rejects every redundant form: a marker 253 with a payload below 253, a marker 254 with a
  payload below 2^16 and a marker 255 with a payload below 2^32 all raise the
  non-canonical failure (in particular the bytes FD 00 00); every input that
  ReadCompactSize accepts is the very byte string WriteCompactSize emits for the decoded
  value, followed by the unread rest.
\<close>

theorem CompactSize_canonical:
  "WriteCompactSize byte_sink_write [] 0 = Inr [0x00] \<and>
   WriteCompactSize byte_sink_write [] 252 = Inr [0xFC] \<and>
   WriteCompactSize byte_sink_write [] 253 = Inr [0xFD, 0xFD, 0x00] \<and>
   WriteCompactSize byte_sink_write [] 65535 = Inr [0xFD, 0xFF, 0xFF] \<and>
   WriteCompactSize byte_sink_write [] 65536 = Inr [0xFE, 0x00, 0x00, 0x01, 0x00] \<and>
   (\<forall>p rest. length p = 2 \<and> letoh p < 253 \<longrightarrow>
      ReadCompactSize (0xFD # p @ rest) = Inl (ios_failure ''non-canonical ReadCompactSize()'')) \<and>
   (\<forall>p rest. length p = 4 \<and> letoh p < 2 ^ 16 \<longrightarrow>
      ReadCompactSize (0xFE # p @ rest) = Inl (ios_failure ''non-canonical ReadCompactSize()'')) \<and>
   (\<forall>p rest. length p = 8 \<and> letoh p < 2 ^ 32 \<longrightarrow>
      ReadCompactSize (0xFF # p @ rest) = Inl (ios_failure ''non-canonical ReadCompactSize()'')) \<and>
   ReadCompactSize [0xFD, 0x00, 0x00] = Inl (ios_failure ''non-canonical ReadCompactSize()'') \<and>
   (\<forall>s n rest. ReadCompactSize s = Inr (n, rest) \<longrightarrow>
      (\<exists>bs. WriteCompactSize byte_sink_write [] n = Inr bs \<and> s = bs @ rest))"
proof -
  have table: "WriteCompactSize byte_sink_write [] 0 = Inr [0x00]"
    "WriteCompactSize byte_sink_write [] 252 = Inr [0xFC]"
    "WriteCompactSize byte_sink_write [] 253 = Inr [0xFD, 0xFD, 0x00]"
    "WriteCompactSize byte_sink_write [] 65535 = Inr [0xFD, 0xFF, 0xFF]"
    "WriteCompactSize byte_sink_write [] 65536 = Inr [0xFE, 0x00, 0x00, 0x01, 0x00]"
    by (simp_all add: WriteCompactSize_bytes)
  have r253: "\<forall>p rest. length p = 2 \<and> letoh p < 253 \<longrightarrow>
      ReadCompactSize (0xFD # p @ rest) = Inl (ios_failure ''non-canonical ReadCompactSize()'')"
    by (simp add: ReadCompactSize_253)
  have r254: "\<forall>p rest. length p = 4 \<and> letoh p < 2 ^ 16 \<longrightarrow>
      ReadCompactSize (0xFE # p @ rest) = Inl (ios_failure ''non-canonical ReadCompactSize()'')"
    by (simp add: ReadCompactSize_254)
  have r255: "\<forall>p rest. length p = 8 \<and> letoh p < 2 ^ 32 \<longrightarrow>
      ReadCompactSize (0xFF # p @ rest) = Inl (ios_failure ''non-canonical ReadCompactSize()'')"
    by (simp add: ReadCompactSize_255)
  have ex: "ReadCompactSize [0xFD, 0x00, 0x00] = Inl (ios_failure ''non-canonical ReadCompactSize()'')"
    using ReadCompactSize_253 [of "[0x00, 0x00]" "[]"] by simp
  have canon: "\<forall>s n rest. ReadCompactSize s = Inr (n, rest) \<longrightarrow>
      (\<exists>bs. WriteCompactSize byte_sink_write [] n = Inr bs \<and> s = bs @ rest)"
    using ReadCompactSize_canonical by blast
  from table r253 r254 r255 ex canon show ?thesis by (intro conjI)
qed

theorem CompactSize_canonical_witness:
  "ReadCompactSize [0xFD, 0xFC, 0x00, 0x07] = Inl (ios_failure ''non-canonical ReadCompactSize()'') \<and>
   ReadCompactSize [0xFE, 0xFF, 0xFF, 0x00, 0x00] = Inl (ios_failure ''non-canonical ReadCompactSize()'') \<and>
   ReadCompactSize [0xFF, 0xFF, 0xFF, 0xFF, 0xFF, 0x00, 0x00, 0x00, 0x00]
     = Inl (ios_failure ''non-canonical ReadCompactSize()'') \<and>
   ReadCompactSize [0xFD, 0xFD, 0x00, 0x2A] = Inr (253, [0x2A]) \<and>
   WriteCompactSize byte_sink_write [] 253 = Inr [0xFD, 0xFD, 0x00]"
proof -
  have r253: "\<forall>p rest. length p = 2 \<and> letoh p < 253 \<longrightarrow>
      ReadCompactSize (0xFD # p @ rest) = Inl (ios_failure ''non-canonical ReadCompactSize()'')"
    using CompactSize_canonical by blast
  have r254: "\<forall>p rest. length p = 4 \<and> letoh p < 2 ^ 16 \<longrightarrow>
      ReadCompactSize (0xFE # p @ rest) = Inl (ios_failure ''non-canonical ReadCompactSize()'')"
    using CompactSize_canonical by blast
  have r255: "\<forall>p rest. length p = 8 \<and> letoh p < 2 ^ 32 \<longrightarrow>
      ReadCompactSize (0xFF # p @ rest) = Inl (ios_failure ''non-canonical ReadCompactSize()'')"
    using CompactSize_canonical by blast
  have canon: "\<forall>s n rest. ReadCompactSize s = Inr (n, rest) \<longrightarrow>
      (\<exists>bs. WriteCompactSize byte_sink_write [] n = Inr bs \<and> s = bs @ rest)"
    using CompactSize_canonical by blast
  have a: "ReadCompactSize [0xFD, 0xFC, 0x00, 0x07] = Inl (ios_failure ''non-canonical ReadCompactSize()'')"
    using r253 [rule_format, of "[0xFC, 0x00]" "[0x07]"] by simp
  have b: "ReadCompactSize [0xFE, 0xFF, 0xFF, 0x00, 0x00] = Inl (ios_failure ''non-canonical ReadCompactSize()'')"
    using r254 [rule_format, of "[0xFF, 0xFF, 0x00, 0x00]" "[]"] by simp
  have c: "ReadCompactSize [0xFF, 0xFF, 0xFF, 0xFF, 0xFF, 0x00, 0x00, 0x00, 0x00]
      = Inl (ios_failure ''non-canonical ReadCompactSize()'')"
    using r255 [rule_format, of "[0xFF, 0xFF, 0xFF, 0xFF, 0x00, 0x00, 0x00, 0x00]" "[]"] by simp
  have d: "ReadCompactSize [0xFD, 0xFD, 0x00, 0x2A] = Inr (253, [0x2A])"
    using ReadCompactSize_253 [of "[0xFD, 0x00]" "[0x2A]"] by simp
  from canon [rule_format, OF d]
  have e: "WriteCompactSize byte_sink_write [] 253 = Inr [0xFD, 0xFD, 0x00]"
    by (auto simp: WriteCompactSize_bytes)
  from a b c d e show ?thesis by (intro conjI)
qed

lemma imax_form:
  assumes "7 \<le> k"
  shows "(2 ^ k - 1 :: nat) div 128 = 2 ^ (k - 7) - 1"
    and "(2 ^ k - 1 :: nat) div 128 * 128 + 127 = 2 ^ k - 1"
proof -
  obtain j where k: "k = 7 + j" using assms by (metis le_Suc_ex)
  have p: "(2::nat) ^ k = 128 * 2 ^ j" by (simp add: k power_add)
  have "(1::nat) \<le> 2 ^ j" by simp
  then obtain m where m: "(2::nat) ^ j = Suc m" by (metis Suc_le_D One_nat_def)
  have e: "(2 ^ k - 1 :: nat) = 128 * m + 127" by (simp add: p m)
  show "(2 ^ k - 1 :: nat) div 128 = 2 ^ (k - 7) - 1"
    unfolding e by (simp add: k m)
  show "(2 ^ k - 1 :: nat) div 128 * 128 + 127 = 2 ^ k - 1"
    unfolding e by simp
qed

lemma imax_lt: "k \<le> 64 \<Longrightarrow> (2 ^ k - 1 :: nat) < 2 ^ 64"
proof -
  assume "k \<le> 64"
  then have "(2::nat) ^ k \<le> 2 ^ 64" by (intro power_increasing) simp_all
  moreover have "(0::nat) < 2 ^ k" by simp
  ultimately show ?thesis by linarith
qed

lemma ReadVarInt_encoded:
  assumes k: "7 \<le> k" "k \<le> 64" and N: "N < 2 ^ 64"
  shows "ReadVarInt (2 ^ k - 1) (WriteVarInt byte_sink_write [] N @ rest) =
      (if N < 2 ^ k then Inr (N, rest)
       else Inl (runtime_error ''Deserialisation Error ReadVarInt''))"
proof -
  have iff: "(N div 128 \<le> (2 ^ k - 1) div 128) = (N \<le> 2 ^ k - 1)"
    by (rule div128_le_iff [of _ k]) (simp_all add: k)
  have "(N \<le> 2 ^ k - 1) = (N < 2 ^ k)"
    by (metis Suc_pred' less_Suc_eq_le zero_less_numeral zero_less_power)
  with iff have iff': "(N div 128 \<le> (2 ^ k - 1) div 128) = (N < 2 ^ k)" by simp
  show ?thesis
    unfolding ReadVarInt_def ReadVarInt_uintmax_encoded [OF imax_lt [OF k(2)] N] iff'
    by simp
qed

lemma ReadVarInt_uintmax_props:
  assumes k: "7 \<le> k" "k \<le> 64"
    and r: "ReadVarInt_uintmax (2 ^ k - 1) s = Inr (n, rest)"
  shows "s = WriteVarInt byte_sink_write [] n @ rest \<and> n \<le> 2 ^ k - 1 \<and>
         (\<exists>p. s = p @ rest \<and> p \<noteq> [] \<and> length p \<le> (k + 6) div 7 \<and> length p \<le> maxSize)"
proof -
  let ?ov = "drop_bit 7 (2 ^ k - 1 :: nat)"
  have ov: "?ov < 2 ^ 57" by (rule drop_bit_7_bound [OF imax_lt [OF k(2)]])
  have "?ov = (2 ^ k - 1) div 128" by (simp add: drop_bit_eq_div)
  also have "\<dots> = 2 ^ (k - 7) - 1" by (rule imax_form(1) [OF k(1)])
  finally have ovk: "?ov = 2 ^ (k - 7) - 1" .
  have ov128: "?ov * 128 + 127 = 2 ^ k - 1"
    unfolding \<open>?ov = (2 ^ k - 1) div 128\<close> by (rule imax_form(2) [OF k(1)])
  from r have "ReadVarInt_loop ?ov 0 0 s = Inr (n, rest)" by (simp add: ReadVarInt_uintmax_def)
  from ReadVarInt_loop_inv [OF ov this]
  obtain p where p: "s = map of_nat p @ rest" "p \<noteq> []"
      "p = rev (WriteVarInt_tmp n 0)" "n \<le> ?ov * 128 + 127" "length p \<le> 10"
      "128 ^ (length p - 1) \<le> 127 * ?ov + 1"
    by auto
  have fits: "n \<le> 2 ^ k - 1"
    using p(4) unfolding ov128 .
  have "(1::nat) \<le> 2 ^ (k - 7)" by simp
  then obtain m where m: "(2::nat) ^ (k - 7) = Suc m" by (metis Suc_le_D One_nat_def)
  have "127 * ?ov + 1 < 128 * 2 ^ (k - 7)" unfolding ovk m by simp
  also have "\<dots> = 2 ^ k"
  proof -
    obtain j where j: "k = 7 + j" using k(1) by (metis le_Suc_ex)
    show ?thesis by (simp add: j power_add)
  qed
  finally have "(128::nat) ^ (length p - 1) < 2 ^ k" using p(6) by simp
  then have "(2::nat) ^ (7 * (length p - 1)) < 2 ^ k" by (simp add: power_mult)
  then have "7 * (length p - 1) < k" by simp
  then have len: "length p \<le> (k + 6) div 7" by simp
  show ?thesis
    using p fits len by (auto simp: WriteVarInt_bytes maxSize_def intro!: exI [of _ "map of_nat p"])
qed

lemma byte_and_80: "((b::byte) AND 0x80 = 0) = (unat b < 128)"
proof -
  have b: "unat b < 256" using unsigned_less [of b, where 'a = nat] by simp
  have "(b AND 0x80 = 0) = (unat (b AND 0x80) = unat (0::byte))"
    by (simp only: word_unat_eq_iff)
  also have "\<dots> = (unat b AND 0x80 = 0)"
    by (simp add: unsigned_and_eq)
  also have "\<dots> = (unat b < 128)" by (rule and_80_byte [OF b])
  finally show ?thesis .
qed

lemma ReadVarInt_loop_no_terminator:
  assumes ov: "overflow < 2 ^ 57"
  shows "10 - i \<le> length s \<Longrightarrow> \<forall>b \<in> set (take (10 - i) s). b AND 0x80 \<noteq> 0 \<Longrightarrow>
     ReadVarInt_loop overflow i n s = Inl (runtime_error ''Deserialisation Error ReadVarInt'')"
proof (induction s arbitrary: i n)
  case Nil
  then show ?case by (subst ReadVarInt_loop_arith [OF ov]) simp
next
  case (Cons b s')
  show ?case
  proof (cases "i < 10")
    case False
    then show ?thesis by (subst ReadVarInt_loop_arith [OF ov]) simp
  next
    case True
    then have "10 - i = Suc (10 - (i + 1))" by simp
    then have t: "take (10 - i) (b # s') = b # take (10 - (i + 1)) s'"
      by (simp only: take_Suc_Cons)
    from Cons.prems(2) have b: "\<not> unat b < 128" and rest: "\<forall>b \<in> set (take (10 - (i + 1)) s'). b AND 0x80 \<noteq> 0"
      unfolding t by (simp_all add: byte_and_80)
    from Cons.prems(1) True have len: "10 - (i + 1) \<le> length s'" by simp
    show ?thesis
      using b Cons.IH [OF len rest]
      by (subst ReadVarInt_loop_arith [OF ov]) simp
  qed
qed

text \<open>
  Claim C3. WriteVarInt emits the bytes of the wire table; for every target type whose
  maximum is 2^k - 1 (7 <= k <= 64) and every n in its range, ReadVarInt applied to the
  bytes WriteVarInt emits for n (followed by any rest) returns n and leaves the rest; and
  every input that ReadVarInt accepts is the very byte string WriteVarInt emits for the
  decoded value, so a value has exactly one encoding that decodes to it.
\<close>

theorem VarInt_roundtrip_unique:
  "WriteVarInt byte_sink_write [] 0 = [0x00] \<and>
   WriteVarInt byte_sink_write [] 127 = [0x7F] \<and>
   WriteVarInt byte_sink_write [] 128 = [0x80, 0x00] \<and>
   WriteVarInt byte_sink_write [] 255 = [0x80, 0x7F] \<and>
   WriteVarInt byte_sink_write [] 16511 = [0xFF, 0x7F] \<and>
   (\<forall>k n rest. 7 \<le> k \<and> k \<le> 64 \<and> n < 2 ^ k \<longrightarrow>
      ReadVarInt (2 ^ k - 1) (WriteVarInt byte_sink_write [] n @ rest) = Inr (n, rest)) \<and>
   (\<forall>k s n rest. 7 \<le> k \<and> k \<le> 64 \<and> ReadVarInt (2 ^ k - 1) s = Inr (n, rest) \<longrightarrow>
      s = WriteVarInt byte_sink_write [] n @ rest)"
proof -
  have table: "WriteVarInt byte_sink_write [] 0 = [0x00]"
    "WriteVarInt byte_sink_write [] 127 = [0x7F]"
    "WriteVarInt byte_sink_write [] 128 = [0x80, 0x00]"
    "WriteVarInt byte_sink_write [] 255 = [0x80, 0x7F]"
    "WriteVarInt byte_sink_write [] 16511 = [0xFF, 0x7F]"
    by (simp_all add: WriteVarInt_bytes WriteVarInt_tmp_arith0 WriteVarInt_tmp_arith1)
  have rt: "\<forall>k n rest. 7 \<le> k \<and> k \<le> 64 \<and> n < 2 ^ k \<longrightarrow>
      ReadVarInt (2 ^ k - 1) (WriteVarInt byte_sink_write [] n @ rest) = Inr (n, rest)"
  proof (intro allI impI)
    fix k n :: nat and rest :: "byte list"
    assume a: "7 \<le> k \<and> k \<le> 64 \<and> n < 2 ^ k"
    then have "(2::nat) ^ k \<le> 2 ^ 64" by (intro power_increasing) simp_all
    with a have n64: "n < 2 ^ 64" by linarith
    from a have k: "7 \<le> k" "k \<le> 64" "n < 2 ^ k" by simp_all
    show "ReadVarInt (2 ^ k - 1) (WriteVarInt byte_sink_write [] n @ rest) = Inr (n, rest)"
      unfolding ReadVarInt_encoded [OF k(1) k(2) n64] using k(3) by simp
  qed
  have un: "\<forall>k s n rest. 7 \<le> k \<and> k \<le> 64 \<and> ReadVarInt (2 ^ k - 1) s = Inr (n, rest) \<longrightarrow>
      s = WriteVarInt byte_sink_write [] n @ rest"
  proof (intro allI impI)
    fix k n :: nat and s rest :: "byte list"
    assume a: "7 \<le> k \<and> k \<le> 64 \<and> ReadVarInt (2 ^ k - 1) s = Inr (n, rest)"
    then obtain v where v: "ReadVarInt_uintmax (2 ^ k - 1) s = Inr (v, rest)"
      and n: "n = v mod (2 ^ k - 1 + 1)"
      by (cases "ReadVarInt_uintmax (2 ^ k - 1) s") (auto simp: ReadVarInt_def)
    from a ReadVarInt_uintmax_props [OF _ _ v]
    have p: "s = WriteVarInt byte_sink_write [] v @ rest" "v \<le> 2 ^ k - 1" by simp_all
    have "(0::nat) < 2 ^ k" by simp
    with p(2) have "v < 2 ^ k - 1 + 1" by linarith
    then have "v mod (2 ^ k - 1 + 1) = v" by (rule mod_less)
    with p(1) n show "s = WriteVarInt byte_sink_write [] n @ rest" by simp
  qed
  from table rt un show ?thesis by (intro conjI)
qed

theorem VarInt_roundtrip_unique_witness:
  "ReadVarInt (2 ^ 32 - 1) (WriteVarInt byte_sink_write [] 300 @ [0x05]) = Inr (300, [0x05]) \<and>
   ReadVarInt (2 ^ 32 - 1) [0x81, 0x2C, 0x05] = Inr (300, [0x05]) \<and>
   [0x81, 0x2C, 0x05] = WriteVarInt byte_sink_write [] 300 @ [0x05]"
proof -
  have rt: "\<forall>k n rest. 7 \<le> k \<and> k \<le> 64 \<and> n < 2 ^ k \<longrightarrow>
      ReadVarInt (2 ^ k - 1) (WriteVarInt byte_sink_write [] n @ rest) = Inr (n, rest)"
    using VarInt_roundtrip_unique by blast
  have un: "\<forall>k s n rest. 7 \<le> k \<and> k \<le> 64 \<and> ReadVarInt (2 ^ k - 1) s = Inr (n, rest) \<longrightarrow>
      s = WriteVarInt byte_sink_write [] n @ rest"
    using VarInt_roundtrip_unique by blast
  have a: "ReadVarInt (2 ^ 32 - 1) (WriteVarInt byte_sink_write [] 300 @ [0x05]) = Inr (300, [0x05])"
    using rt [rule_format, of 32 300 "[0x05]"] by simp
  have w: "WriteVarInt byte_sink_write [] 300 = [0x81, 0x2C]"
    by (simp add: WriteVarInt_bytes WriteVarInt_tmp_arith0 WriteVarInt_tmp_arith1)
  from a have b: "ReadVarInt (2 ^ 32 - 1) [0x81, 0x2C, 0x05] = Inr (300, [0x05])"
    by (simp add: w)
  have c: "[0x81, 0x2C, 0x05] = WriteVarInt byte_sink_write [] 300 @ [0x05]"
    using un [rule_format, of 32 "[0x81, 0x2C, 0x05]" 300 "[0x05]"] b by simp
  from a b c show ?thesis by (intro conjI)
qed

text \<open>
  Claim C7. For a target type with maximum 2^k - 1 (7 <= k <= 64), a successful ReadVarInt
  has consumed at most (k + 6) div 7 byte groups (and never more than maxSize = 10), and the
  accumulated value fits the target type; an input whose first maxSize bytes all have the
  high bit set fails with the deserialisation error, and so does the encoding of every
  value above the target type's maximum.
\<close>

theorem ReadVarInt_bounded:
  "(\<forall>k s n rest. 7 \<le> k \<and> k \<le> 64 \<and> ReadVarInt_uintmax (2 ^ k - 1) s = Inr (n, rest) \<longrightarrow>
      n \<le> 2 ^ k - 1 \<and> ReadVarInt (2 ^ k - 1) s = Inr (n, rest) \<and>
      (\<exists>p. s = p @ rest \<and> p \<noteq> [] \<and> length p \<le> (k + 6) div 7 \<and> length p \<le> maxSize)) \<and>
   (\<forall>k s. 7 \<le> k \<and> k \<le> 64 \<and> maxSize \<le> length s \<and>
        (\<forall>b \<in> set (take maxSize s). b AND 0x80 \<noteq> 0) \<longrightarrow>
      ReadVarInt (2 ^ k - 1) s = Inl (runtime_error ''Deserialisation Error ReadVarInt'')) \<and>
   (\<forall>k N rest. 7 \<le> k \<and> k \<le> 64 \<and> 2 ^ k \<le> N \<and> N < 2 ^ 64 \<longrightarrow>
      ReadVarInt (2 ^ k - 1) (WriteVarInt byte_sink_write [] N @ rest)
        = Inl (runtime_error ''Deserialisation Error ReadVarInt''))"
proof -
  have fits: "\<forall>k s n rest. 7 \<le> k \<and> k \<le> 64 \<and> ReadVarInt_uintmax (2 ^ k - 1) s = Inr (n, rest) \<longrightarrow>
      n \<le> 2 ^ k - 1 \<and> ReadVarInt (2 ^ k - 1) s = Inr (n, rest) \<and>
      (\<exists>p. s = p @ rest \<and> p \<noteq> [] \<and> length p \<le> (k + 6) div 7 \<and> length p \<le> maxSize)"
  proof (intro allI impI)
    fix k n :: nat and s rest :: "byte list"
    assume a: "7 \<le> k \<and> k \<le> 64 \<and> ReadVarInt_uintmax (2 ^ k - 1) s = Inr (n, rest)"
    then have k: "7 \<le> k" "k \<le> 64" and r: "ReadVarInt_uintmax (2 ^ k - 1) s = Inr (n, rest)"
      by simp_all
    note p = ReadVarInt_uintmax_props [OF k r]
    have "(0::nat) < 2 ^ k" by simp
    with p have "n < 2 ^ k - 1 + 1" by linarith
    then have "n mod (2 ^ k - 1 + 1) = n" by (rule mod_less)
    then have "ReadVarInt (2 ^ k - 1) s = Inr (n, rest)"
      unfolding ReadVarInt_def r bindE_simps by simp
    with p show "n \<le> 2 ^ k - 1 \<and> ReadVarInt (2 ^ k - 1) s = Inr (n, rest) \<and>
      (\<exists>p. s = p @ rest \<and> p \<noteq> [] \<and> length p \<le> (k + 6) div 7 \<and> length p \<le> maxSize)"
      by blast
  qed
  have noterm: "\<forall>k s. 7 \<le> k \<and> k \<le> 64 \<and> maxSize \<le> length s \<and>
        (\<forall>b \<in> set (take maxSize s). b AND 0x80 \<noteq> 0) \<longrightarrow>
      ReadVarInt (2 ^ k - 1) s = Inl (runtime_error ''Deserialisation Error ReadVarInt'')"
  proof (intro allI impI)
    fix k :: nat and s :: "byte list"
    assume a: "7 \<le> k \<and> k \<le> 64 \<and> maxSize \<le> length s \<and>
        (\<forall>b \<in> set (take maxSize s). b AND 0x80 \<noteq> 0)"
    then have ov: "drop_bit 7 (2 ^ k - 1 :: nat) < 2 ^ 57"
      by (intro drop_bit_7_bound imax_lt) simp
    from a have "10 - 0 \<le> length s" "\<forall>b \<in> set (take (10 - 0) s). b AND 0x80 \<noteq> 0"
      by (simp_all add: maxSize_def)
    from ReadVarInt_loop_no_terminator [OF ov this]
    show "ReadVarInt (2 ^ k - 1) s = Inl (runtime_error ''Deserialisation Error ReadVarInt'')"
      by (simp add: ReadVarInt_def ReadVarInt_uintmax_def)
  qed
  have big: "\<forall>k N rest. 7 \<le> k \<and> k \<le> 64 \<and> 2 ^ k \<le> N \<and> N < 2 ^ 64 \<longrightarrow>
      ReadVarInt (2 ^ k - 1) (WriteVarInt byte_sink_write [] N @ rest)
        = Inl (runtime_error ''Deserialisation Error ReadVarInt'')"
  proof (intro allI impI)
    fix k N :: nat and rest :: "byte list"
    assume a: "7 \<le> k \<and> k \<le> 64 \<and> 2 ^ k \<le> N \<and> N < 2 ^ 64"
    then have k: "7 \<le> k" "k \<le> 64" "N < 2 ^ 64" "\<not> N < 2 ^ k" by simp_all
    show "ReadVarInt (2 ^ k - 1) (WriteVarInt byte_sink_write [] N @ rest)
        = Inl (runtime_error ''Deserialisation Error ReadVarInt'')"
      unfolding ReadVarInt_encoded [OF k(1) k(2) k(3)] using k(4) by simp
  qed
  from fits noterm big show ?thesis by (intro conjI)
qed

theorem ReadVarInt_bounded_witness:
  "ReadVarInt_uintmax (2 ^ 8 - 1) [0x80, 0x7F, 0x01] = Inr (255, [0x01]) \<and>
   ReadVarInt (2 ^ 8 - 1) [0x80, 0x7F, 0x01] = Inr (255, [0x01]) \<and>
   ReadVarInt (2 ^ 64 - 1) [0x80, 0x80, 0x80, 0x80, 0x80, 0x80, 0x80, 0x80, 0x80, 0x80, 0x00]
     = Inl (runtime_error ''Deserialisation Error ReadVarInt'') \<and>
   ReadVarInt (2 ^ 8 - 1) (WriteVarInt byte_sink_write [] 256 @ [])
     = Inl (runtime_error ''Deserialisation Error ReadVarInt'')"
proof -
  have fits: "\<forall>k s n rest. 7 \<le> k \<and> k \<le> 64 \<and> ReadVarInt_uintmax (2 ^ k - 1) s = Inr (n, rest) \<longrightarrow>
      n \<le> 2 ^ k - 1 \<and> ReadVarInt (2 ^ k - 1) s = Inr (n, rest) \<and>
      (\<exists>p. s = p @ rest \<and> p \<noteq> [] \<and> length p \<le> (k + 6) div 7 \<and> length p \<le> maxSize)"
    using ReadVarInt_bounded by blast
  have noterm: "\<forall>k s. 7 \<le> k \<and> k \<le> 64 \<and> maxSize \<le> length s \<and>
        (\<forall>b \<in> set (take maxSize s). b AND 0x80 \<noteq> 0) \<longrightarrow>
      ReadVarInt (2 ^ k - 1) s = Inl (runtime_error ''Deserialisation Error ReadVarInt'')"
    using ReadVarInt_bounded by blast
  have big: "\<forall>k N rest. 7 \<le> k \<and> k \<le> 64 \<and> 2 ^ k \<le> N \<and> N < 2 ^ 64 \<longrightarrow>
      ReadVarInt (2 ^ k - 1) (WriteVarInt byte_sink_write [] N @ rest)
        = Inl (runtime_error ''Deserialisation Error ReadVarInt'')"
    using ReadVarInt_bounded by blast
  have a: "ReadVarInt_uintmax (2 ^ 8 - 1) [0x80, 0x7F, 0x01] = Inr (255, [0x01])"
    unfolding ReadVarInt_uintmax_def
    by (simp add: drop_bit_eq_div, (subst ReadVarInt_loop_arith; simp)+)
  from fits [rule_format, of 8 "[0x80, 0x7F, 0x01]" 255 "[0x01]"] a
  have b: "ReadVarInt (2 ^ 8 - 1) [0x80, 0x7F, 0x01] = Inr (255, [0x01])" by simp
  have c: "ReadVarInt (2 ^ 64 - 1) [0x80, 0x80, 0x80, 0x80, 0x80, 0x80, 0x80, 0x80, 0x80, 0x80, 0x00]
     = Inl (runtime_error ''Deserialisation Error ReadVarInt'')"
    using noterm [rule_format, of 64 "[0x80, 0x80, 0x80, 0x80, 0x80, 0x80, 0x80, 0x80, 0x80, 0x80, 0x00]"]
    by (simp add: maxSize_def)
  have d: "ReadVarInt (2 ^ 8 - 1) (WriteVarInt byte_sink_write [] 256 @ [])
     = Inl (runtime_error ''Deserialisation Error ReadVarInt'')"
    using big [rule_format, of 8 256 "[]"] by simp
  from a b c d show ?thesis by (intro conjI)
qed

declare Serialize.simps [simp del]

lemma bindE_eq_Inr: "(bindE m f = Inr y) = (\<exists>x. m = Inr x \<and> f x = Inr y)"
  by (cases m) simp_all

lemma bindE_eq_Inl: "(bindE m f = Inl e) = (m = Inl e \<or> (\<exists>x. m = Inr x \<and> f x = Inl e))"
  by (cases m) simp_all

lemma GetSizeOfVarInt_loop_length:
  "GetSizeOfVarInt_loop n nRet = nRet + length (WriteVarInt_tmp n len)"
proof (induction n arbitrary: nRet len rule: less_induct)
  case (less n)
  show ?case
  proof (cases "n \<le> 127")
    case True
    then show ?thesis
      by (subst GetSizeOfVarInt_loop.simps, subst WriteVarInt_tmp_arith) simp
  next
    case False
    then have lt: "n div 128 - 1 < n" by simp
    show ?thesis
      using False less.IH [OF lt, of "nRet + 1" "len + 1"]
      by (subst GetSizeOfVarInt_loop.simps, subst WriteVarInt_tmp_arith)
         (simp add: drop_bit_eq_div Let_def)
  qed
qed

lemma GetSizeOfVarInt_length:
  "GetSizeOfVarInt n = length (WriteVarInt byte_sink_write [] n)"
  by (simp add: GetSizeOfVarInt_def GetSizeOfVarInt_loop_length [of n 0 0] WriteVarInt_bytes)

lemma length_WriteVarInt_le:
  assumes "n < 2 ^ 64"
  shows "length (WriteVarInt byte_sink_write [] n) \<le> 10"
proof (cases "n \<le> 127")
  case True
  then show ?thesis by (simp add: WriteVarInt_bytes WriteVarInt_tmp_arith0)
next
  case False
  have "n div 128 - 1 < 128 ^ 9" using assms by simp
  from length_tmp1 [OF this] False show ?thesis
    by (simp add: WriteVarInt_bytes WriteVarInt_tmp_arith0)
qed

lemma size_t_add_left: "size_t (size_t a + b) = size_t (a + b)"
  by (simp add: size_t_def mod_add_left_eq)

lemma sim_write:
  "t = size_t (length s) \<Longrightarrow>
   CSizeComputer_write t bs = size_t (length (byte_sink_write s bs))"
  by (simp add: CSizeComputer_write_def byte_sink_write_def size_t_add_left)

lemma sim_ser_writedata:
  assumes "t = size_t (length s)"
  shows "ser_writedata8 CSizeComputer_write t x = size_t (length (ser_writedata8 byte_sink_write s x))"
    and "ser_writedata16 CSizeComputer_write t x = size_t (length (ser_writedata16 byte_sink_write s x))"
    and "ser_writedata32 CSizeComputer_write t x = size_t (length (ser_writedata32 byte_sink_write s x))"
    and "ser_writedata64 CSizeComputer_write t x = size_t (length (ser_writedata64 byte_sink_write s x))"
  unfolding ser_writedata8_def ser_writedata16_def ser_writedata32_def ser_writedata64_def
  by (rule sim_write [OF assms])+

lemma sim_WriteVarInt:
  "t = size_t (length s) \<Longrightarrow>
   WriteVarInt CSizeComputer_write t n = size_t (length (WriteVarInt byte_sink_write s n))"
proof -
  have "\<And>s t. t = size_t (length s) \<Longrightarrow>
      foldl (ser_writedata8 CSizeComputer_write) t xs
        = size_t (length (foldl (ser_writedata8 byte_sink_write) s xs))" for xs
  proof (induction xs)
    case Nil
    then show ?case by simp
  next
    case (Cons x xs)
    show ?case using Cons.IH [OF sim_ser_writedata(1) [OF Cons.prems, of x]] by simp
  qed
  then show "t = size_t (length s) \<Longrightarrow> ?thesis" by (simp add: WriteVarInt_def)
qed

lemma sim_WriteCompactSize:
  assumes "t = size_t (length s)" and "WriteCompactSize byte_sink_write s n = Inr s'"
  shows "WriteCompactSize CSizeComputer_write t n = Inr (size_t (length s'))"
    and "WriteCompactSize_CSizeComputer t n = Inr (size_t (length s'))"
proof -
  from assms(2) have n: "\<not> n > MAX_SIZE" by (auto simp: WriteCompactSize_def split: if_splits)
  note w8 = sim_ser_writedata(1) [OF assms(1)]
  show "WriteCompactSize CSizeComputer_write t n = Inr (size_t (length s'))"
    using assms(2) n
    by (auto simp: WriteCompactSize_def w8 sim_ser_writedata [OF refl] split: if_splits)
  have "length s' = length s + GetSizeOfCompactSize n"
    using assms(2) n
    by (auto simp: WriteCompactSize_bytes GetSizeOfCompactSize_def MAX_SIZE_def
        simp del: htole_numeral split: if_splits)
  then show "WriteCompactSize_CSizeComputer t n = Inr (size_t (length s'))"
    by (simp add: WriteCompactSize_CSizeComputer_def CSizeComputer_seek_def assms(1)
        size_t_add_left)
qed

lemma sim_SerializeMany:
  assumes "\<And>x s s'. x \<in> set xs \<Longrightarrow>
      Serialize byte_sink_write (WriteCompactSize byte_sink_write) s x = Inr s' \<Longrightarrow>
      Serialize CSizeComputer_write WriteCompactSize_CSizeComputer (size_t (length s)) x
        = Inr (size_t (length s'))"
  shows "SerializeMany byte_sink_write (WriteCompactSize byte_sink_write) s xs = Inr s' \<Longrightarrow>
      SerializeMany CSizeComputer_write WriteCompactSize_CSizeComputer (size_t (length s)) xs
        = Inr (size_t (length s'))"
  using assms
proof (induction xs arbitrary: s)
  case Nil
  then show ?case by (simp add: Serialize.simps)
next
  case (Cons x xs)
  from Cons.prems(1) obtain s1 where
    s1: "Serialize byte_sink_write (WriteCompactSize byte_sink_write) s x = Inr s1"
    and rest: "SerializeMany byte_sink_write (WriteCompactSize byte_sink_write) s1 xs = Inr s'"
    by (auto simp: Serialize.simps bindE_eq_Inr)
  have "Serialize CSizeComputer_write WriteCompactSize_CSizeComputer (size_t (length s)) x
        = Inr (size_t (length s1))"
    by (rule Cons.prems(2) [OF _ s1]) simp
  moreover have "SerializeMany CSizeComputer_write WriteCompactSize_CSizeComputer (size_t (length s1)) xs
        = Inr (size_t (length s'))"
    by (rule Cons.IH [OF rest]) (rule Cons.prems(2), simp_all)
  ultimately show ?case by (simp add: Serialize.simps)
qed

lemma sim_SerializePairs:
  assumes "\<And>a b x s s'. (a, b) \<in> set ps \<Longrightarrow> x = a \<or> x = b \<Longrightarrow>
      Serialize byte_sink_write (WriteCompactSize byte_sink_write) s x = Inr s' \<Longrightarrow>
      Serialize CSizeComputer_write WriteCompactSize_CSizeComputer (size_t (length s)) x
        = Inr (size_t (length s'))"
  shows "SerializePairs byte_sink_write (WriteCompactSize byte_sink_write) s ps = Inr s' \<Longrightarrow>
      SerializePairs CSizeComputer_write WriteCompactSize_CSizeComputer (size_t (length s)) ps
        = Inr (size_t (length s'))"
  using assms
proof (induction ps arbitrary: s)
  case Nil
  then show ?case by (simp add: Serialize.simps)
next
  case (Cons p ps)
  obtain a b where p: "p = (a, b)" by (cases p)
  from Cons.prems(1) obtain s1 s2 where
    s1: "Serialize byte_sink_write (WriteCompactSize byte_sink_write) s a = Inr s1"
    and s2: "Serialize byte_sink_write (WriteCompactSize byte_sink_write) s1 b = Inr s2"
    and rest: "SerializePairs byte_sink_write (WriteCompactSize byte_sink_write) s2 ps = Inr s'"
    by (auto simp: p Serialize.simps bindE_eq_Inr)
  have "Serialize CSizeComputer_write WriteCompactSize_CSizeComputer (size_t (length s)) a
        = Inr (size_t (length s1))"
    by (rule Cons.prems(2) [OF _ _ s1, of a b]) (simp_all add: p)
  moreover have "Serialize CSizeComputer_write WriteCompactSize_CSizeComputer (size_t (length s1)) b
        = Inr (size_t (length s2))"
    by (rule Cons.prems(2) [OF _ _ s2, of a b]) (simp_all add: p)
  moreover have "SerializePairs CSizeComputer_write WriteCompactSize_CSizeComputer (size_t (length s2)) ps
        = Inr (size_t (length s'))"
    by (rule Cons.IH [OF rest]) (rule Cons.prems(2), auto)
  ultimately show ?case by (simp add: p Serialize.simps)
qed

lemma sim_blob:
  assumes "bindE (WriteCompactSize byte_sink_write s (length bs))
      (\<lambda>s'. Inr (if bs \<noteq> [] then byte_sink_write s' bs else s')) = Inr s'"
  shows "bindE (WriteCompactSize_CSizeComputer (size_t (length s)) (length bs))
      (\<lambda>s'. Inr (if bs \<noteq> [] then CSizeComputer_write s' bs else s')) = Inr (size_t (length s'))"
proof -
  from assms obtain s1 where s1: "WriteCompactSize byte_sink_write s (length bs) = Inr s1"
    and s': "s' = (if bs \<noteq> [] then byte_sink_write s1 bs else s1)"
    by (auto simp: bindE_eq_Inr)
  show ?thesis
    unfolding sim_WriteCompactSize(2) [OF refl s1] bindE_simps s'
    by (simp add: sim_write [OF refl])
qed

lemma sim_Serialize:
  "Serialize byte_sink_write (WriteCompactSize byte_sink_write) s v = Inr s' \<Longrightarrow>
   Serialize CSizeComputer_write WriteCompactSize_CSizeComputer (size_t (length s)) v
     = Inr (size_t (length s'))"
proof (induction v arbitrary: s s')
  case (VInt8 x)
  then show ?case by (auto simp: Serialize.simps sim_ser_writedata [OF refl])
next
  case (VInt16 x)
  then show ?case by (auto simp: Serialize.simps sim_ser_writedata [OF refl])
next
  case (VInt32 x)
  then show ?case by (auto simp: Serialize.simps sim_ser_writedata [OF refl])
next
  case (VInt64 x)
  then show ?case by (auto simp: Serialize.simps sim_ser_writedata [OF refl])
next
  case (VFloat x)
  then show ?case by (auto simp: Serialize.simps sim_ser_writedata [OF refl])
next
  case (VDouble x)
  then show ?case by (auto simp: Serialize.simps sim_ser_writedata [OF refl])
next
  case (VBool x)
  then show ?case by (auto simp: Serialize.simps sim_ser_writedata [OF refl])
next
  case (VFlatData x)
  then show ?case by (auto simp: Serialize.simps sim_write [OF refl])
next
  case (VVarInt x)
  then show ?case by (auto simp: Serialize.simps sim_WriteVarInt [OF refl])
next
  case (VCompactSize x)
  then have "WriteCompactSize byte_sink_write s x = Inr s'" by (simp add: Serialize.simps)
  from sim_WriteCompactSize(1) [OF refl this] show ?case by (simp add: Serialize.simps)
next
  case (VLimitedBytes x)
  then show ?case unfolding Serialize.simps by (rule sim_blob)
next
  case (VString x)
  then show ?case unfolding Serialize.simps by (rule sim_blob)
next
  case (VBytes x)
  then show ?case unfolding Serialize.simps by (rule sim_blob)
next
  case (VVector xs)
  from VVector.prems obtain s1 where
    s1: "WriteCompactSize byte_sink_write s (length xs) = Inr s1"
    and rest: "SerializeMany byte_sink_write (WriteCompactSize byte_sink_write) s1 xs = Inr s'"
    by (auto simp: Serialize.simps bindE_eq_Inr)
  have many: "SerializeMany CSizeComputer_write WriteCompactSize_CSizeComputer (size_t (length s1)) xs
        = Inr (size_t (length s'))"
    by (rule sim_SerializeMany [OF _ rest]) (rule VVector.IH)
  show ?case
    unfolding Serialize.simps sim_WriteCompactSize(2) [OF refl s1] bindE_simps by (rule many)
next
  case (VPair a b)
  from VPair.prems obtain s1 where
    s1: "Serialize byte_sink_write (WriteCompactSize byte_sink_write) s a = Inr s1"
    and s2: "Serialize byte_sink_write (WriteCompactSize byte_sink_write) s1 b = Inr s'"
    by (auto simp: Serialize.simps bindE_eq_Inr)
  show ?case
    unfolding Serialize.simps VPair.IH(1) [OF s1] bindE_simps by (rule VPair.IH(2) [OF s2])
next
  case (VMap m)
  from VMap.prems obtain s1 where
    s1: "WriteCompactSize byte_sink_write s (length m) = Inr s1"
    and rest: "SerializePairs byte_sink_write (WriteCompactSize byte_sink_write) s1 m = Inr s'"
    by (auto simp: Serialize.simps bindE_eq_Inr)
  have "SerializePairs CSizeComputer_write WriteCompactSize_CSizeComputer (size_t (length s1)) m
        = Inr (size_t (length s'))"
  proof (rule sim_SerializePairs [OF _ rest])
    fix a b x s s'
    assume "(a, b) \<in> set m" "x = a \<or> x = b"
      "Serialize byte_sink_write (WriteCompactSize byte_sink_write) s x = Inr s'"
    then show "Serialize CSizeComputer_write WriteCompactSize_CSizeComputer (size_t (length s)) x
        = Inr (size_t (length s'))"
      using VMap.IH by fastforce
  qed
  then show ?case
    unfolding Serialize.simps sim_WriteCompactSize(2) [OF refl s1] bindE_simps .
next
  case (VSet xs)
  from VSet.prems obtain s1 where
    s1: "WriteCompactSize byte_sink_write s (length xs) = Inr s1"
    and rest: "SerializeMany byte_sink_write (WriteCompactSize byte_sink_write) s1 xs = Inr s'"
    by (auto simp: Serialize.simps bindE_eq_Inr)
  have many: "SerializeMany CSizeComputer_write WriteCompactSize_CSizeComputer (size_t (length s1)) xs
        = Inr (size_t (length s'))"
    by (rule sim_SerializeMany [OF _ rest]) (rule VSet.IH)
  show ?case
    unfolding Serialize.simps sim_WriteCompactSize(2) [OF refl s1] bindE_simps by (rule many)
next
  case (VUniquePtr p)
  then show ?case by (simp add: Serialize.simps)
next
  case (VSharedPtr p)
  then show ?case by (simp add: Serialize.simps)
next
  case (VUuid x)
  then show ?case by (auto simp: Serialize.simps sim_write [OF refl])
next
  case (VObject fields)
  from VObject.prems
  have rest: "SerializeMany byte_sink_write (WriteCompactSize byte_sink_write) s fields = Inr s'"
    by (simp add: Serialize.simps)
  show ?case
    unfolding Serialize.simps by (rule sim_SerializeMany [OF _ rest]) (rule VObject.IH)
qed

lemma WriteCompactSize_bytes_err:
  "WriteCompactSize byte_sink_write s n = Inl e \<Longrightarrow>
     e = ios_failure ''WriteCompactSize(): size too large'' \<and> n > MAX_SIZE"
  by (auto simp: WriteCompactSize_def split: if_splits)

lemma err_SerializeMany:
  assumes "\<And>x s. x \<in> set xs \<Longrightarrow>
      Serialize byte_sink_write (WriteCompactSize byte_sink_write) s x = Inl e \<Longrightarrow>
      e = ios_failure ''WriteCompactSize(): size too large''"
  shows "SerializeMany byte_sink_write (WriteCompactSize byte_sink_write) s xs = Inl e \<Longrightarrow>
      e = ios_failure ''WriteCompactSize(): size too large''"
  using assms
proof (induction xs arbitrary: s)
  case Nil
  then show ?case by (simp add: Serialize.simps)
next
  case (Cons x xs)
  from Cons.prems(1) consider
    "Serialize byte_sink_write (WriteCompactSize byte_sink_write) s x = Inl e"
    | s1 where "SerializeMany byte_sink_write (WriteCompactSize byte_sink_write) s1 xs = Inl e"
    by (auto simp: Serialize.simps bindE_eq_Inl)
  then show ?case
  proof cases
    case 1
    then show ?thesis by (rule Cons.prems(2) [rotated]) simp
  next
    case 2
    then show ?thesis by (rule Cons.IH) (rule Cons.prems(2), simp_all)
  qed
qed

lemma err_SerializePairs:
  assumes "\<And>a b x s. (a, b) \<in> set ps \<Longrightarrow> x = a \<or> x = b \<Longrightarrow>
      Serialize byte_sink_write (WriteCompactSize byte_sink_write) s x = Inl e \<Longrightarrow>
      e = ios_failure ''WriteCompactSize(): size too large''"
  shows "SerializePairs byte_sink_write (WriteCompactSize byte_sink_write) s ps = Inl e \<Longrightarrow>
      e = ios_failure ''WriteCompactSize(): size too large''"
  using assms
proof (induction ps arbitrary: s)
  case Nil
  then show ?case by (simp add: Serialize.simps)
next
  case (Cons p ps)
  obtain a b where p: "p = (a, b)" by (cases p)
  from Cons.prems(1) consider
    "Serialize byte_sink_write (WriteCompactSize byte_sink_write) s a = Inl e"
    | s1 where "Serialize byte_sink_write (WriteCompactSize byte_sink_write) s1 b = Inl e"
    | s2 where "SerializePairs byte_sink_write (WriteCompactSize byte_sink_write) s2 ps = Inl e"
    by (auto simp: p Serialize.simps bindE_eq_Inl)
  then show ?case
  proof cases
    case 1
    then show ?thesis by (rule Cons.prems(2) [rotated 2, of _ a a b]) (simp_all add: p)
  next
    case 2
    then show ?thesis by (rule Cons.prems(2) [rotated 2, of _ b a b]) (simp_all add: p)
  next
    case 3
    then show ?thesis by (rule Cons.IH) (rule Cons.prems(2), auto)
  qed
qed

lemma err_blob:
  "bindE (WriteCompactSize byte_sink_write s (length bs))
      (\<lambda>s'. Inr (if bs \<noteq> [] then byte_sink_write s' bs else s')) = Inl e \<Longrightarrow>
   e = ios_failure ''WriteCompactSize(): size too large''"
  by (auto simp: bindE_eq_Inl dest: WriteCompactSize_bytes_err)

lemma err_Serialize:
  "Serialize byte_sink_write (WriteCompactSize byte_sink_write) s v = Inl e \<Longrightarrow>
   e = ios_failure ''WriteCompactSize(): size too large''"
proof (induction v arbitrary: s)
  case (VCompactSize x)
  then show ?case by (auto simp: Serialize.simps dest: WriteCompactSize_bytes_err)
next
  case (VLimitedBytes x)
  then show ?case unfolding Serialize.simps by (rule err_blob)
next
  case (VString x)
  then show ?case unfolding Serialize.simps by (rule err_blob)
next
  case (VBytes x)
  then show ?case unfolding Serialize.simps by (rule err_blob)
next
  case (VVector xs)
  from VVector.prems consider
    "WriteCompactSize byte_sink_write s (length xs) = Inl e"
    | s1 where "SerializeMany byte_sink_write (WriteCompactSize byte_sink_write) s1 xs = Inl e"
    by (auto simp: Serialize.simps bindE_eq_Inl)
  then show ?case
  proof cases
    case 1
    then show ?thesis by (auto dest: WriteCompactSize_bytes_err)
  next
    case 2
    then show ?thesis by (rule err_SerializeMany [rotated]) (rule VVector.IH)
  qed
next
  case (VPair a b)
  from VPair.prems consider
    "Serialize byte_sink_write (WriteCompactSize byte_sink_write) s a = Inl e"
    | s1 where "Serialize byte_sink_write (WriteCompactSize byte_sink_write) s1 b = Inl e"
    by (auto simp: Serialize.simps bindE_eq_Inl)
  then show ?case
  proof cases
    case 1
    then show ?thesis by (rule VPair.IH(1))
  next
    case 2
    then show ?thesis by (rule VPair.IH(2))
  qed
next
  case (VMap m)
  from VMap.prems consider
    "WriteCompactSize byte_sink_write s (length m) = Inl e"
    | s1 where "SerializePairs byte_sink_write (WriteCompactSize byte_sink_write) s1 m = Inl e"
    by (auto simp: Serialize.simps bindE_eq_Inl)
  then show ?case
  proof cases
    case 1
    then show ?thesis by (auto dest: WriteCompactSize_bytes_err)
  next
    case 2
    then show ?thesis
    proof (rule err_SerializePairs [rotated])
      fix a b x s
      assume "(a, b) \<in> set m" "x = a \<or> x = b"
        "Serialize byte_sink_write (WriteCompactSize byte_sink_write) s x = Inl e"
      then show "e = ios_failure ''WriteCompactSize(): size too large''"
        using VMap.IH by fastforce
    qed
  qed
next
  case (VSet xs)
  from VSet.prems consider
    "WriteCompactSize byte_sink_write s (length xs) = Inl e"
    | s1 where "SerializeMany byte_sink_write (WriteCompactSize byte_sink_write) s1 xs = Inl e"
    by (auto simp: Serialize.simps bindE_eq_Inl)
  then show ?case
  proof cases
    case 1
    then show ?thesis by (auto dest: WriteCompactSize_bytes_err)
  next
    case 2
    then show ?thesis by (rule err_SerializeMany [rotated]) (rule VSet.IH)
  qed
next
  case (VUniquePtr p)
  then show ?case by (simp add: Serialize.simps)
next
  case (VSharedPtr p)
  then show ?case by (simp add: Serialize.simps)
next
  case (VObject fields)
  from VObject.prems
  have "SerializeMany byte_sink_write (WriteCompactSize byte_sink_write) s fields = Inl e"
    by (simp add: Serialize.simps)
  then show ?case by (rule err_SerializeMany [rotated]) (rule VObject.IH)
qed (simp_all add: Serialize.simps)

lemma ReadCompactSize_le_MAX_SIZE:
  assumes "ReadCompactSize s = Inr (n, rest)"
  shows "n \<le> MAX_SIZE"
proof -
  from ReadCompactSize_canonical [OF assms]
  have "WriteCompactSize byte_sink_write [] n = Inr (take (length s - length rest) s)" by simp
  then show ?thesis by (auto simp: WriteCompactSize_def split: if_splits)
qed

text \<open>
  Claim C4. Whenever serializing a value into a byte sink succeeds (with fewer than 2^64
  bytes, the range of the size_t tally), running the same Serialize against CSizeComputer
  yields a tally equal to the number of bytes produced; the CSizeComputer overloads of
  WriteVarInt and WriteCompactSize advance the tally by exactly the number of bytes their
  stream counterparts write.
\<close>

theorem size_computation_equivalence:
  "(\<forall>v bs. Serialize_bytes v = Inr bs \<and> length bs < 2 ^ 64 \<longrightarrow>
      GetSerializeSize v = Inr (length bs)) \<and>
   (\<forall>t n. WriteVarInt_CSizeComputer t n
      = size_t (t + length (WriteVarInt byte_sink_write [] n))) \<and>
   (\<forall>t n bs. WriteCompactSize byte_sink_write [] n = Inr bs \<longrightarrow>
      WriteCompactSize_CSizeComputer t n = Inr (size_t (t + length bs)))"
proof -
  have a: "\<forall>v bs. Serialize_bytes v = Inr bs \<and> length bs < 2 ^ 64 \<longrightarrow>
      GetSerializeSize v = Inr (length bs)"
  proof (intro allI impI)
    fix v bs
    assume h: "Serialize_bytes v = Inr bs \<and> length bs < 2 ^ 64"
    then have "Serialize byte_sink_write (WriteCompactSize byte_sink_write) [] v = Inr bs"
      by (simp add: Serialize_bytes_def)
    from sim_Serialize [OF this] h show "GetSerializeSize v = Inr (length bs)"
      by (simp add: GetSerializeSize_def size_t_def)
  qed
  have b: "\<forall>t n. WriteVarInt_CSizeComputer t n
      = size_t (t + length (WriteVarInt byte_sink_write [] n))"
    by (simp add: WriteVarInt_CSizeComputer_def CSizeComputer_seek_def GetSizeOfVarInt_length)
  have c: "\<forall>t n bs. WriteCompactSize byte_sink_write [] n = Inr bs \<longrightarrow>
      WriteCompactSize_CSizeComputer t n = Inr (size_t (t + length bs))"
  proof (intro allI impI)
    fix t n bs
    assume h: "WriteCompactSize byte_sink_write [] n = Inr bs"
    then have "length bs = GetSizeOfCompactSize n"
      by (auto simp: WriteCompactSize_bytes GetSizeOfCompactSize_def
          simp del: htole_numeral split: if_splits)
    then show "WriteCompactSize_CSizeComputer t n = Inr (size_t (t + length bs))"
      by (simp add: WriteCompactSize_CSizeComputer_def CSizeComputer_seek_def)
  qed
  from a b c show ?thesis by (intro conjI)
qed

theorem size_computation_equivalence_witness:
  "Serialize_bytes (VVector [VInt16 1, VVarInt 300, VString [0x61, 0x62]])
     = Inr [0x03, 0x01, 0x00, 0x81, 0x2C, 0x02, 0x61, 0x62] \<and>
   GetSerializeSize (VVector [VInt16 1, VVarInt 300, VString [0x61, 0x62]]) = Inr 8 \<and>
   WriteCompactSize_CSizeComputer 0 65536 = Inr 5"
proof -
  have a: "\<forall>v bs. Serialize_bytes v = Inr bs \<and> length bs < 2 ^ 64 \<longrightarrow>
      GetSerializeSize v = Inr (length bs)"
    using size_computation_equivalence by blast
  have c: "\<forall>t n bs. WriteCompactSize byte_sink_write [] n = Inr bs \<longrightarrow>
      WriteCompactSize_CSizeComputer t n = Inr (size_t (t + length bs))"
    using size_computation_equivalence by blast
  have s: "Serialize_bytes (VVector [VInt16 1, VVarInt 300, VString [0x61, 0x62]])
     = Inr [0x03, 0x01, 0x00, 0x81, 0x2C, 0x02, 0x61, 0x62]"
    by (simp add: Serialize_bytes_def Serialize.simps WriteCompactSize_bytes WriteVarInt_bytes
        WriteVarInt_tmp_arith0 WriteVarInt_tmp_arith1 ser_writedata16_def byte_sink_write_def)
  from a [rule_format, of "VVector [VInt16 1, VVarInt 300, VString [0x61, 0x62]]"
      "[0x03, 0x01, 0x00, 0x81, 0x2C, 0x02, 0x61, 0x62]"] s
  have g: "GetSerializeSize (VVector [VInt16 1, VVarInt 300, VString [0x61, 0x62]]) = Inr 8"
    by simp
  have "WriteCompactSize byte_sink_write [] 65536 = Inr [0xFE, 0x00, 0x00, 0x01, 0x00]"
    by (simp add: WriteCompactSize_bytes)
  from c [rule_format, OF this, of 0]
  have w: "WriteCompactSize_CSizeComputer 0 65536 = Inr 5" by (simp add: size_t_def)
  from s g w show ?thesis by (intro conjI)
qed

declare Unserialize_map_loop.simps [simp del]
declare Unserialize_set_loop.simps [simp del]
declare Unserialize_for.simps [simp del]
declare chunk_boundaries.simps [simp del]

lemma Unserialize_map_loop_run:
  "k = nSize - i \<Longrightarrow>
   Unserialize_map_loop unser dflt nSize i m s =
     (case run_elems unser dflt k s of
        Done items s' \<Rightarrow> Done (foldl map_insert m items) s'
      | Thrown e ys \<Rightarrow> Thrown e (foldl map_insert m (butlast ys)))"
proof (induction k arbitrary: i m s)
  case 0
  then show ?case by (subst Unserialize_map_loop.simps) simp
next
  case (Suc k)
  then have i: "i < nSize" and k: "k = nSize - Suc i" by simp_all
  note IH = Suc.IH [OF k]
  show ?case
  proof (cases "unser s dflt")
    case (Thrown e a)
    with i show ?thesis by (subst Unserialize_map_loop.simps) simp
  next
    case (Done item s1)
    have ne: "\<And>e ys. run_elems unser dflt k s1 = Thrown e ys \<Longrightarrow> ys \<noteq> []"
      by (cases k) (auto split: outcome.splits)
    from Done i show ?thesis
      by (subst Unserialize_map_loop.simps)
         (auto simp: IH dest: ne split: outcome.splits)
  qed
qed

lemma foldl_map_insert: "foldl map_insert m items k = (case m k of None \<Rightarrow> map_of items k | Some v \<Rightarrow> Some v)"
proof (induction items arbitrary: m)
  case Nil
  then show ?case by (simp split: option.splits)
next
  case (Cons item items)
  show ?case
    by (simp add: Cons.IH, auto simp: map_insert_def dom_def split: option.splits)
qed

lemma foldl_map_insert_empty: "foldl map_insert Map.empty items = map_of items"
  by (rule ext) (simp add: foldl_map_insert)

lemma Unserialize_set_loop_run:
  "k = nSize - i \<Longrightarrow>
   Unserialize_set_loop unser dflt nSize i m s =
     (case run_elems unser dflt k s of
        Done keys s' \<Rightarrow> Done (foldl set_insert m keys) s'
      | Thrown e ys \<Rightarrow> Thrown e (foldl set_insert m (butlast ys)))"
proof (induction k arbitrary: i m s)
  case 0
  then show ?case by (subst Unserialize_set_loop.simps) simp
next
  case (Suc k)
  then have i: "i < nSize" and k: "k = nSize - Suc i" by simp_all
  note IH = Suc.IH [OF k]
  show ?case
  proof (cases "unser s dflt")
    case (Thrown e a)
    with i show ?thesis by (subst Unserialize_set_loop.simps) simp
  next
    case (Done item s1)
    have ne: "\<And>e ys. run_elems unser dflt k s1 = Thrown e ys \<Longrightarrow> ys \<noteq> []"
      by (cases k) (auto split: outcome.splits)
    from Done i show ?thesis
      by (subst Unserialize_set_loop.simps)
         (auto simp: IH dest: ne split: outcome.splits)
  qed
qed

lemma foldl_set_insert: "foldl set_insert m keys = m \<union> set keys"
  by (induction keys arbitrary: m) (auto simp: set_insert_def)

lemma run_elems_length:
  "run_elems unser dflt k s = Done xs s' \<Longrightarrow> length xs = k"
  by (induction k arbitrary: s xs) (auto split: outcome.splits)

text \<open>
  Claim C9. When decoding a map succeeds, the result is determined by the pairs decoded
  from the wire in order: a key maps to the value of its first occurrence on the wire, and
  later pairs with the same key are discarded (the result is map_of of the wire pairs). When
  decoding a set succeeds, the result is the set of the keys on the wire, so a repeated key
  is discarded as well.
\<close>

theorem map_set_decode_first_wins:
  "(Unserialize_map unserK unserV dflt s m0 = Done m s' \<longrightarrow>
      (\<exists>nSize s1 items. ReadCompactSize s = Inr (nSize, s1) \<and>
         run_elems (Unserialize_pair unserK unserV) dflt nSize s1 = Done items s' \<and>
         length items = nSize \<and> m = map_of items \<and>
         (\<forall>pre k v post. items = pre @ (k, v) # post \<and> k \<notin> fst ` set pre \<longrightarrow> m k = Some v))) \<and>
   (Unserialize_set unser dfltk t k0 = Done ks t' \<longrightarrow>
      (\<exists>nSize t1 keys. ReadCompactSize t = Inr (nSize, t1) \<and>
         run_elems unser dfltk nSize t1 = Done keys t' \<and>
         length keys = nSize \<and> ks = set keys))"
proof (intro conjI impI)
  assume a: "Unserialize_map unserK unserV dflt s m0 = Done m s'"
  then obtain nSize s1 where r: "ReadCompactSize s = Inr (nSize, s1)"
    and l: "Unserialize_map_loop (Unserialize_pair unserK unserV) dflt nSize 0 Map.empty s1 = Done m s'"
    by (cases "ReadCompactSize s") (auto simp: Unserialize_map_def)
  from l obtain items where
    run: "run_elems (Unserialize_pair unserK unserV) dflt nSize s1 = Done items s'"
    and m: "m = foldl map_insert Map.empty items"
    unfolding Unserialize_map_loop_run [of nSize nSize 0, simplified]
    by (auto split: outcome.splits)
  have m': "m = map_of items" by (simp add: m foldl_map_insert_empty)
  have fw: "\<forall>pre k v post. items = pre @ (k, v) # post \<and> k \<notin> fst ` set pre \<longrightarrow> m k = Some v"
  proof (intro allI impI)
    fix pre k v post
    assume h: "items = pre @ (k, v) # post \<and> k \<notin> fst ` set pre"
    then have "map_of pre k = None" by (simp add: map_of_eq_None_iff)
    with h show "m k = Some v" by (simp add: m' map_add_def)
  qed
  from r run m' fw run_elems_length [OF run]
  show "\<exists>nSize s1 items. ReadCompactSize s = Inr (nSize, s1) \<and>
         run_elems (Unserialize_pair unserK unserV) dflt nSize s1 = Done items s' \<and>
         length items = nSize \<and> m = map_of items \<and>
         (\<forall>pre k v post. items = pre @ (k, v) # post \<and> k \<notin> fst ` set pre \<longrightarrow> m k = Some v)"
    by blast
next
  assume a: "Unserialize_set unser dfltk t k0 = Done ks t'"
  then obtain nSize t1 where r: "ReadCompactSize t = Inr (nSize, t1)"
    and l: "Unserialize_set_loop unser dfltk nSize 0 {} t1 = Done ks t'"
    by (cases "ReadCompactSize t") (auto simp: Unserialize_set_def)
  from l obtain keys where
    run: "run_elems unser dfltk nSize t1 = Done keys t'"
    and m: "ks = foldl set_insert {} keys"
    unfolding Unserialize_set_loop_run [of nSize nSize 0, simplified]
    by (auto split: outcome.splits)
  from r run m run_elems_length [OF run]
  show "\<exists>nSize t1 keys. ReadCompactSize t = Inr (nSize, t1) \<and>
         run_elems unser dfltk nSize t1 = Done keys t' \<and>
         length keys = nSize \<and> ks = set keys"
    by (auto simp: foldl_set_insert)
qed

lemma Unserialize_uint8_Cons [simp]: "Unserialize_uint8 (b # s) a = Done b s"
  by (simp add: Unserialize_uint8_def ser_readdata8_Cons)

lemma Unserialize_uint8_Nil [simp]: "Unserialize_uint8 [] a = Thrown end_of_data a"
  by (simp add: Unserialize_uint8_def ser_readdata8_cases)

theorem map_set_decode_first_wins_witness:
  "(\<exists>m. Unserialize_map Unserialize_uint8 Unserialize_uint8 (0, 0)
          [0x02, 0x07, 0x01, 0x07, 0x02] [9 \<mapsto> 9] = Done m [] \<and>
        m 7 = Some 1 \<and> m 9 = None) \<and>
   (\<exists>ks. Unserialize_set Unserialize_uint8 0 [0x03, 0x05, 0x06, 0x05] {1} = Done ks [] \<and>
        ks = {5, 6})"
proof -
  have rm: "ReadCompactSize [0x02, 0x07, 0x01, 0x07, 0x02] = Inr (2, [0x07, 0x01, 0x07, 0x02])"
    using ReadCompactSize_small [of 2] by simp
  have rs: "ReadCompactSize [0x03, 0x05, 0x06, 0x05] = Inr (3, [0x05, 0x06, 0x05])"
    using ReadCompactSize_small [of 3] by simp
  have runm: "run_elems (Unserialize_pair Unserialize_uint8 Unserialize_uint8) (0, 0) 2
      [0x07, 0x01, 0x07, 0x02] = Done [(7, 1), (7, 2)] []"
    by (simp add: numeral_2_eq_2 Unserialize_pair_def)
  have runs: "run_elems Unserialize_uint8 0 3 [0x05, 0x06, 0x05] = Done [5, 6, 5] []"
    by (simp add: numeral_3_eq_3)
  obtain m where dm: "Unserialize_map Unserialize_uint8 Unserialize_uint8 (0, 0)
          [0x02, 0x07, 0x01, 0x07, 0x02] [9 \<mapsto> 9] = Done m []"
    by (simp add: Unserialize_map_def rm Unserialize_map_loop_run [of 2 2 0, simplified] runm)
  obtain ks where dk: "Unserialize_set Unserialize_uint8 0 [0x03, 0x05, 0x06, 0x05] {1} = Done ks []"
    by (simp add: Unserialize_set_def rs Unserialize_set_loop_run [of 3 3 0, simplified] runs)
  from map_set_decode_first_wins [THEN conjunct1, rule_format, OF dm]
  obtain items where i: "items = [(7, 1), (7, 2)]" "m = map_of items"
      "\<forall>pre k v post. items = pre @ (k, v) # post \<and> k \<notin> fst ` set pre \<longrightarrow> m k = Some v"
    by (auto simp: rm runm)
  from i(3) [rule_format, of "[]" 7 1 "[(7, 2)]"] i(1) have m7: "m 7 = Some 1" by simp
  from i(1,2) have m9: "m 9 = None" by simp
  from map_set_decode_first_wins [THEN conjunct2, rule_format, OF dk]
  have k: "ks = {5, 6}" by (auto simp: rs runs)
  from dm m7 m9 dk k show ?thesis by blast
qed

lemma chunk_elems_eq:
  assumes "0 < c" and "c < 2 ^ 64"
  shows "chunk_elems c sz = 1 + (c - 1) div sz"
proof -
  have "c + 2 ^ 64 - 1 = (c - 1) + 1 * 2 ^ 64" using assms(1) by simp
  then have "(c + 2 ^ 64 - 1) mod 2 ^ 64 = (c - 1) mod 2 ^ 64"
    by (simp only: mod_mult_self1)
  also have "\<dots> = c - 1" using assms(2) by simp
  finally have a: "size_t (c + 2 ^ 64 - 1) = c - 1" by (simp add: size_t_def)
  have "(c - 1) div sz \<le> c - 1" by (rule div_le_dividend)
  with assms have "1 + (c - 1) div sz < 2 ^ 64" by linarith
  then show ?thesis unfolding chunk_elems_def a by (simp add: size_t_def)
qed

lemma chunk_elems_1: "0 < c \<Longrightarrow> c < 2 ^ 64 \<Longrightarrow> chunk_elems c (Suc 0) = c"
  by (simp add: chunk_elems_eq)

lemma resize_grow: "length v = i \<Longrightarrow> resize v (i + n) x = v @ replicate n x"
  by (simp add: resize_def)

lemma flat_loop_done:
  "\<not> i < nSize \<Longrightarrow> Unserialize_impl_flat_loop nSize i c v rs s = Some (Done (v, rs) s)"
  by (subst Unserialize_impl_flat_loop.simps) simp

lemma flat_loop_step:
  assumes "i < nSize" "0 < c" "3 * c < 2 ^ 64" "length v = i" "nSize < 2 ^ 64"
  shows "Unserialize_impl_flat_loop nSize i c v rs s =
     (if length s < min (nSize - i) c
      then Some (Thrown end_of_data (v @ replicate (min (nSize - i) c) 0, rs @ [i + min (nSize - i) c]))
      else Unserialize_impl_flat_loop nSize (i + min (nSize - i) c) (3 * c)
             (v @ take (min (nSize - i) c) s) (rs @ [i + min (nSize - i) c])
             (drop (min (nSize - i) c) s))"
proof -
  have c64: "c < 2 ^ 64" using assms(3) by simp
  have ce: "chunk_elems c sizeof_uint8_t = c"
    using chunk_elems_eq [OF assms(2) c64, of 1] assms(2) by (simp add: sizeof_uint8_t_def)
  have blk64: "min (nSize - i) c < 2 ^ 64" using c64 by simp
  have st1: "size_t (min (nSize - i) c * sizeof_uint8_t) = min (nSize - i) c"
    using blk64 by (simp add: size_t_def sizeof_uint8_t_def)
  have st2: "size_t (c * CHUNK_GROWTH_RATE) = 3 * c"
    using assms(3) by (simp add: size_t_def CHUNK_GROWTH_RATE_def mult.commute)
  show ?thesis
    using assms(1)
    by (subst Unserialize_impl_flat_loop.simps)
       (simp add: ce st1 st2 Let_def resize_grow [OF assms(4)] read_def assms(4))
qed

lemma chunk_boundaries_Nil: "\<not> i < n \<Longrightarrow> chunk_boundaries sz n i c = []"
  by (subst chunk_boundaries.simps) simp

lemma chunk_boundaries_Cons:
  "i < n \<Longrightarrow> chunk_boundaries sz n i c =
     (i + min (n - i) (1 + (c - 1) div sz)) #
       chunk_boundaries sz n (i + min (n - i) (1 + (c - 1) div sz)) (c * 3)"
  by (subst chunk_boundaries.simps) (simp add: Let_def)

lemma chunk_boundaries_Cons1:
  "i < n \<Longrightarrow> 0 < c \<Longrightarrow> chunk_boundaries 1 n i c =
     (i + min (n - i) c) # chunk_boundaries 1 n (i + min (n - i) c) (3 * c)"
  by (subst chunk_boundaries_Cons) (simp_all add: mult.commute)

lemma flat_loop_char:
  "nSize < 2 ^ 32 \<Longrightarrow> i \<le> nSize \<Longrightarrow> length v = i \<Longrightarrow>
   (i < nSize \<longrightarrow> c = 2 * i + STARTING_CHUNK_SIZE) \<Longrightarrow>
   \<exists>r. Unserialize_impl_flat_loop nSize i c v rs s = Some r \<and>
     (nSize - i \<le> length s \<longrightarrow>
        r = Done (v @ take (nSize - i) s, rs @ chunk_boundaries 1 nSize i c) (drop (nSize - i) s)) \<and>
     (length s < nSize - i \<longrightarrow>
        (\<exists>k b j. r = Thrown end_of_data
             (v @ take k s @ replicate (b - (i + k)) 0,
              rs @ take (Suc j) (chunk_boundaries 1 nSize i c)) \<and>
           k \<le> length s \<and> i + k < b \<and> b \<le> nSize \<and>
           b \<le> 3 * (i + k) + STARTING_CHUNK_SIZE \<and>
           j < length (chunk_boundaries 1 nSize i c) \<and>
           chunk_boundaries 1 nSize i c ! j = b))"
proof (induction "nSize - i" arbitrary: i c v rs s rule: less_induct)
  case less
  show ?case
  proof (cases "i < nSize")
    case False
    with less.prems have "i = nSize" by simp
    then show ?thesis
      by (simp add: flat_loop_done chunk_boundaries_Nil)
  next
    case True
    with less.prems have c: "c = 2 * i + STARTING_CHUNK_SIZE" by simp
    have c0: "0 < c" by (simp add: c STARTING_CHUNK_SIZE_def)
    have c3: "3 * c < 2 ^ 64" using less.prems(1,2) by (simp add: c STARTING_CHUNK_SIZE_def)
    have n64: "nSize < 2 ^ 64" using less.prems(1) by simp
    define blk where "blk = min (nSize - i) c"
    have blk0: "0 < blk" using True c0 by (simp add: blk_def)
    have blkle: "blk \<le> nSize - i" by (simp add: blk_def)
    note step = flat_loop_step [OF True c0 c3 less.prems(3) n64, of rs s, folded blk_def]
    note bs = chunk_boundaries_Cons1 [OF True c0, folded blk_def]
    show ?thesis
    proof (cases "length s < blk")
      case short: True
      have b3: "i + blk \<le> 3 * (i + 0) + STARTING_CHUNK_SIZE"
        using c by (simp add: blk_def)
      define r where "r = Thrown end_of_data (v @ replicate blk (0::byte), rs @ [i + blk])"
      have run: "Unserialize_impl_flat_loop nSize i c v rs s = Some r"
        using short unfolding step r_def by simp
      have c1: "nSize - i \<le> length s \<longrightarrow>
        r = Done (v @ take (nSize - i) s, rs @ chunk_boundaries 1 nSize i c) (drop (nSize - i) s)"
        using short blkle by simp
      have "r = Thrown end_of_data
             (v @ take 0 s @ replicate (i + blk - (i + 0)) 0,
              rs @ take (Suc 0) (chunk_boundaries 1 nSize i c)) \<and>
           0 \<le> length s \<and> i + 0 < i + blk \<and> i + blk \<le> nSize \<and>
           i + blk \<le> 3 * (i + 0) + STARTING_CHUNK_SIZE \<and>
           0 < length (chunk_boundaries 1 nSize i c) \<and>
           chunk_boundaries 1 nSize i c ! 0 = i + blk"
        using blk0 blkle True b3 unfolding bs r_def by simp
      then have c2: "length s < nSize - i \<longrightarrow>
        (\<exists>k b j. r = Thrown end_of_data
             (v @ take k s @ replicate (b - (i + k)) 0,
              rs @ take (Suc j) (chunk_boundaries 1 nSize i c)) \<and>
           k \<le> length s \<and> i + k < b \<and> b \<le> nSize \<and>
           b \<le> 3 * (i + k) + STARTING_CHUNK_SIZE \<and>
           j < length (chunk_boundaries 1 nSize i c) \<and>
           chunk_boundaries 1 nSize i c ! j = b)"
        by blast
      from run c1 c2 show ?thesis by blast
    next
      case long: False
      define i' where "i' = i + blk"
      have lt: "nSize - i' < nSize - i" using blk0 True by (simp add: i'_def)
      have le': "i' \<le> nSize" using blkle True by (simp add: i'_def)
      have len': "length (v @ take blk s) = i'" using long less.prems(3) by (simp add: i'_def)
      have inv': "i' < nSize \<longrightarrow> 3 * c = 2 * i' + STARTING_CHUNK_SIZE"
      proof
        assume "i' < nSize"
        then have "blk = c" by (auto simp: i'_def blk_def min_def)
        then show "3 * c = 2 * i' + STARTING_CHUNK_SIZE" by (simp add: i'_def c)
      qed
      from less.hyps [OF lt less.prems(1) le' len' inv', of "rs @ [i']" "drop blk s"]
      obtain r where r: "Unserialize_impl_flat_loop nSize i' (3 * c) (v @ take blk s) (rs @ [i']) (drop blk s) = Some r"
        and ok: "nSize - i' \<le> length (drop blk s) \<longrightarrow>
          r = Done ((v @ take blk s) @ take (nSize - i') (drop blk s),
                (rs @ [i']) @ chunk_boundaries 1 nSize i' (3 * c)) (drop (nSize - i') (drop blk s))"
        and bad: "length (drop blk s) < nSize - i' \<longrightarrow>
          (\<exists>k b j. r = Thrown end_of_data
             ((v @ take blk s) @ take k (drop blk s) @ replicate (b - (i' + k)) 0,
              (rs @ [i']) @ take (Suc j) (chunk_boundaries 1 nSize i' (3 * c))) \<and>
           k \<le> length (drop blk s) \<and> i' + k < b \<and> b \<le> nSize \<and>
           b \<le> 3 * (i' + k) + STARTING_CHUNK_SIZE \<and>
           j < length (chunk_boundaries 1 nSize i' (3 * c)) \<and>
           chunk_boundaries 1 nSize i' (3 * c) ! j = b)"
        by blast
      have run: "Unserialize_impl_flat_loop nSize i c v rs s = Some r"
        using long r unfolding step i'_def by simp
      have tk: "\<And>m. take blk s @ take m (drop blk s) = take (blk + m) s"
        by (simp add: take_add)
      have c1: "nSize - i \<le> length s \<longrightarrow>
        r = Done (v @ take (nSize - i) s, rs @ chunk_boundaries 1 nSize i c) (drop (nSize - i) s)"
      proof
        assume a: "nSize - i \<le> length s"
        then have "nSize - i' \<le> length (drop blk s)" by (simp add: i'_def)
        with ok have "r = Done ((v @ take blk s) @ take (nSize - i') (drop blk s),
                (rs @ [i']) @ chunk_boundaries 1 nSize i' (3 * c)) (drop (nSize - i') (drop blk s))"
          by simp
        moreover have "blk + (nSize - i') = nSize - i" using blkle True by (simp add: i'_def)
        ultimately show "r = Done (v @ take (nSize - i) s, rs @ chunk_boundaries 1 nSize i c) (drop (nSize - i) s)"
          unfolding bs by (simp add: tk i'_def add.commute)
      qed
      have c2: "length s < nSize - i \<longrightarrow>
        (\<exists>k b j. r = Thrown end_of_data
             (v @ take k s @ replicate (b - (i + k)) 0,
              rs @ take (Suc j) (chunk_boundaries 1 nSize i c)) \<and>
           k \<le> length s \<and> i + k < b \<and> b \<le> nSize \<and>
           b \<le> 3 * (i + k) + STARTING_CHUNK_SIZE \<and>
           j < length (chunk_boundaries 1 nSize i c) \<and>
           chunk_boundaries 1 nSize i c ! j = b)"
      proof
        assume a: "length s < nSize - i"
        then have "length (drop blk s) < nSize - i'" using long by (simp add: i'_def)
        with bad obtain k b j where
          k: "r = Thrown end_of_data
             ((v @ take blk s) @ take k (drop blk s) @ replicate (b - (i' + k)) 0,
              (rs @ [i']) @ take (Suc j) (chunk_boundaries 1 nSize i' (3 * c)))"
          "k \<le> length (drop blk s)" "i' + k < b" "b \<le> nSize"
          "b \<le> 3 * (i' + k) + STARTING_CHUNK_SIZE"
          "j < length (chunk_boundaries 1 nSize i' (3 * c))"
          "chunk_boundaries 1 nSize i' (3 * c) ! j = b"
          by blast
        show "\<exists>k b j. r = Thrown end_of_data
             (v @ take k s @ replicate (b - (i + k)) 0,
              rs @ take (Suc j) (chunk_boundaries 1 nSize i c)) \<and>
           k \<le> length s \<and> i + k < b \<and> b \<le> nSize \<and>
           b \<le> 3 * (i + k) + STARTING_CHUNK_SIZE \<and>
           j < length (chunk_boundaries 1 nSize i c) \<and>
           chunk_boundaries 1 nSize i c ! j = b"
          using k long unfolding bs
          by (intro exI [of _ "blk + k"] exI [of _ b] exI [of _ "Suc j"])
             (simp add: tk i'_def add.assoc)
      qed
      from run c1 c2 show ?thesis by blast
    qed
  qed
qed

lemma run_elems_Thrown_nonempty:
  "run_elems unser dflt k s = Thrown e ys \<Longrightarrow> ys \<noteq> [] \<and> length ys \<le> k"
  by (induction k arbitrary: s ys) (auto split: outcome.splits)

lemma run_elems_add:
  "run_elems unser dflt (a + b) s =
     (case run_elems unser dflt a s of
        Thrown e xs \<Rightarrow> Thrown e xs
      | Done xs s1 \<Rightarrow>
          (case run_elems unser dflt b s1 of
             Done ys s2 \<Rightarrow> Done (xs @ ys) s2
           | Thrown e ys \<Rightarrow> Thrown e (xs @ ys)))"
  by (induction a arbitrary: s) (auto split: outcome.splits)

lemma Unserialize_for_char:
  "k = nMid - i \<Longrightarrow> length xs = i \<Longrightarrow> i \<le> nMid \<Longrightarrow>
   Unserialize_for unser nMid i (xs @ replicate k dflt) s =
     (case run_elems unser dflt k s of
        Done ys s' \<Rightarrow> Done (nMid, xs @ ys) s'
      | Thrown e ys \<Rightarrow>
          Thrown e (i + length ys - 1, xs @ ys @ replicate (k - length ys) dflt))"
proof (induction k arbitrary: i xs s)
  case 0
  then show ?case by (subst Unserialize_for.simps) simp
next
  case (Suc k)
  then have i: "i < nMid" and k: "k = nMid - Suc i" by simp_all
  have nth: "(xs @ dflt # replicate k dflt) ! i = dflt"
    using Suc.prems(2) by (simp add: nth_append)
  have upd: "\<And>a. (xs @ dflt # replicate k dflt)[i := a] = xs @ a # replicate k dflt"
    using Suc.prems(2) by (simp add: list_update_append)
  show ?case
  proof (cases "unser s dflt")
    case (Thrown e a)
    with i show ?thesis
      by (subst Unserialize_for.simps) (simp add: nth upd)
  next
    case (Done a s1)
    have len: "length (xs @ [a]) = Suc i" using Suc.prems(2) by simp
    have le: "Suc i \<le> nMid" using i by simp
    note IH = Suc.IH [OF k len le, of s1, simplified]
    have ne: "\<And>e ys. run_elems unser dflt k s1 = Thrown e ys \<Longrightarrow> ys \<noteq> []"
      by (drule run_elems_Thrown_nonempty) simp
    from Done i show ?thesis
      by (subst Unserialize_for.simps)
         (auto simp: nth upd IH dest: ne split: outcome.splits)
  qed
qed

lemma ceil_div_ge: "0 < c \<Longrightarrow> 0 < sz \<Longrightarrow> c \<le> sz * (1 + (c - 1) div sz)" for c sz :: nat
proof -
  assume c: "0 < c" and sz: "0 < sz"
  have "c - 1 = sz * ((c - 1) div sz) + (c - 1) mod sz" by simp
  moreover have "(c - 1) mod sz < sz" using sz by simp
  ultimately have "c - 1 < sz * ((c - 1) div sz) + sz" by linarith
  then show ?thesis using c by simp
qed

lemma ceil_div_triple:
  "0 < c \<Longrightarrow> 0 < sz \<Longrightarrow> 1 + (3 * c - 1) div sz \<le> 3 * (1 + (c - 1) div sz)" for c sz :: nat
proof -
  assume c: "0 < c" and sz: "0 < sz"
  have "3 * c - 1 < 3 * c" using c by simp
  also have "\<dots> \<le> 3 * (sz * (1 + (c - 1) div sz))"
    using ceil_div_ge [OF c sz] by simp
  also have "\<dots> = sz * (3 * (1 + (c - 1) div sz))"
    by (simp add: algebra_simps)
  finally have "(3 * c - 1) div sz < 3 * (1 + (c - 1) div sz)"
    using sz by (simp add: div_less_iff_less_mult mult.commute)
  then show ?thesis by simp
qed

lemma elem_loop_done:
  "\<not> nMid < nSize \<Longrightarrow>
   Unserialize_impl_loop unser dflt sz nSize i nMid c v rs s = Some (Done (v, rs) s)"
  by (subst Unserialize_impl_loop.simps) simp

lemma elem_loop_step:
  assumes lt: "nMid < nSize" and n: "nSize < 2 ^ 32" and c0: "0 < c" and c3: "3 * c < 2 ^ 64"
    and len: "length v = nMid"
    and b: "b = nMid + min (nSize - nMid) (1 + (c - 1) div sz)"
  shows "Unserialize_impl_loop unser dflt sz nSize nMid nMid c v rs s =
    (case run_elems unser dflt (b - nMid) s of
       Thrown ex ys \<Rightarrow>
         Some (Thrown ex (v @ ys @ replicate (b - nMid - length ys) dflt, rs @ [b]))
     | Done ys s' \<Rightarrow>
         Unserialize_impl_loop unser dflt sz nSize b b (3 * c) (v @ ys) (rs @ [b]) s')"
proof -
  define e where "e = 1 + (c - 1) div sz"
  have c64: "c < 2 ^ 64" using c3 by simp
  have ce: "chunk_elems c sz = e"
    unfolding e_def by (rule chunk_elems_eq [OF c0 c64])
  have "nMid + min nSize e < 2 ^ 64" using lt n by simp
  then have st1: "size_t (nMid + min nSize e) = nMid + min nSize e" by (simp add: size_t_def)
  have st2: "size_t (c * CHUNK_GROWTH_RATE) = 3 * c"
    using c3 by (simp add: size_t_def CHUNK_GROWTH_RATE_def mult.commute)
  have cl1: "nSize < nMid + min nSize e \<Longrightarrow> b = nSize"
    and cl2: "\<not> nSize < nMid + min nSize e \<Longrightarrow> nMid + min nSize e = b"
    using lt by (auto simp: b e_def min_def split: if_splits)
  have ble: "nMid \<le> b" by (simp add: b)
  have rz: "resize v b dflt = v @ replicate (b - nMid) dflt"
    using ble len by (simp add: resize_def)
  note inner = Unserialize_for_char [OF refl len ble, of unser dflt s]
  show ?thesis
  proof (cases "nSize < nMid + min nSize e")
    case True
    note bn = cl1 [OF True]
    show ?thesis
      unfolding bn
      by (subst Unserialize_impl_loop.simps)
         (simp add: lt ce st1 st2 True Let_def rz [unfolded bn] inner [unfolded bn]
            split: outcome.splits)
  next
    case False
    note bn = cl2 [OF False]
    have stb: "size_t b = b" using st1 bn by simp
    have nb: "\<not> nSize < b" using False bn by simp
    show ?thesis
      by (subst Unserialize_impl_loop.simps)
         (simp add: lt ce stb st2 nb Let_def bn rz inner split: outcome.splits)
  qed
qed

lemma elem_loop_char:
  assumes n: "nSize < 2 ^ 32" and sz0: "0 < sz" and szle: "sz \<le> 2 ^ 28"
  shows "nMid \<le> nSize \<Longrightarrow> length v = nMid \<Longrightarrow>
    (nMid < nSize \<longrightarrow> 0 < c \<and>
       1 + (c - 1) div sz \<le> 2 * nMid + (1 + (STARTING_CHUNK_SIZE - 1) div sz)) \<Longrightarrow>
    \<exists>r. Unserialize_impl_loop unser dflt sz nSize nMid nMid c v rs s = Some r \<and>
      (\<forall>ys s'. run_elems unser dflt (nSize - nMid) s = Done ys s' \<longrightarrow>
         r = Done (v @ ys, rs @ chunk_boundaries sz nSize nMid c) s') \<and>
      (\<forall>ex ys. run_elems unser dflt (nSize - nMid) s = Thrown ex ys \<longrightarrow>
         (\<exists>b j. r = Thrown ex
               (v @ ys @ replicate (b - (nMid + length ys)) dflt,
                rs @ take (Suc j) (chunk_boundaries sz nSize nMid c)) \<and>
            nMid + length ys \<le> b \<and> b \<le> nSize \<and>
            b + 3 \<le> 3 * (nMid + length ys) + (1 + (STARTING_CHUNK_SIZE - 1) div sz) \<and>
            j < length (chunk_boundaries sz nSize nMid c) \<and>
            chunk_boundaries sz nSize nMid c ! j = b))"
proof (induction "nSize - nMid" arbitrary: nMid c v rs s rule: less_induct)
  case less
  define e0 where "e0 = 1 + (STARTING_CHUNK_SIZE - 1) div sz"
  have e0le: "e0 \<le> 16000000"
  proof -
    have "(STARTING_CHUNK_SIZE - 1) div sz \<le> STARTING_CHUNK_SIZE - 1" by (rule div_le_dividend)
    then show ?thesis by (simp add: e0_def STARTING_CHUNK_SIZE_def)
  qed
  show ?case
  proof (cases "nMid < nSize")
    case False
    with less.prems have "nMid = nSize" by simp
    then show ?thesis by (simp add: elem_loop_done chunk_boundaries_Nil)
  next
    case True
    define e where "e = 1 + (c - 1) div sz"
    from True less.prems(3) have c0: "0 < c" and ele: "e \<le> 2 * nMid + e0"
      by (simp_all add: e_def e0_def)
    have e1: "1 \<le> e" by (simp add: e_def)
    have "c \<le> sz * e" unfolding e_def by (rule ceil_div_ge [OF c0 sz0])
    also have "\<dots> \<le> 2 ^ 28 * (2 * nMid + e0)" using szle ele by (rule mult_le_mono)
    also have "\<dots> \<le> 2 ^ 28 * (2 * 2 ^ 32 + 16000000)"
      using True n e0le by (intro mult_le_mono2) simp
    finally have cb: "c \<le> 2 ^ 28 * (2 * 2 ^ 32 + 16000000)" .
    then have c3: "3 * c < 2 ^ 64" by simp
    define b1 where "b1 = nMid + min (nSize - nMid) e"
    have b1gt: "nMid < b1" using True e1 by (simp add: b1_def)
    have b1le: "b1 \<le> nSize" using True by (simp add: b1_def)
    have b1e: "b1 \<le> nMid + e" by (simp add: b1_def)
    note step = elem_loop_step [OF True n c0 c3 less.prems(2) b1_def [unfolded e_def],
        of unser dflt rs s]
    have bs: "chunk_boundaries sz nSize nMid c = b1 # chunk_boundaries sz nSize b1 (3 * c)"
      using chunk_boundaries_Cons [OF True, of sz c] by (simp add: b1_def e_def mult.commute)
    have split: "nSize - nMid = (b1 - nMid) + (nSize - b1)" using b1gt b1le by simp
    note full = run_elems_add [of unser dflt "b1 - nMid" "nSize - b1" s, folded split]
    show ?thesis
    proof (cases "run_elems unser dflt (b1 - nMid) s")
      case (Thrown ex ys1)
      from run_elems_Thrown_nonempty [OF Thrown]
      have ys1: "ys1 \<noteq> []" "length ys1 \<le> b1 - nMid" by simp_all
      then have l1: "1 \<le> length ys1" by (cases ys1) simp_all
      define r where "r = Thrown ex (v @ ys1 @ replicate (b1 - nMid - length ys1) dflt, rs @ [b1])"
      have run: "Unserialize_impl_loop unser dflt sz nSize nMid nMid c v rs s = Some r"
        unfolding step Thrown r_def by simp
      have fr: "run_elems unser dflt (nSize - nMid) s = Thrown ex ys1"
        unfolding full Thrown by simp
      have "r = Thrown ex
               (v @ ys1 @ replicate (b1 - (nMid + length ys1)) dflt,
                rs @ take (Suc 0) (chunk_boundaries sz nSize nMid c)) \<and>
            nMid + length ys1 \<le> b1 \<and> b1 \<le> nSize \<and>
            b1 + 3 \<le> 3 * (nMid + length ys1) + e0 \<and>
            0 < length (chunk_boundaries sz nSize nMid c) \<and>
            chunk_boundaries sz nSize nMid c ! 0 = b1"
        using ys1 l1 b1le b1e ele b1gt unfolding bs r_def by simp
      then have "\<exists>b j. r = Thrown ex
               (v @ ys1 @ replicate (b - (nMid + length ys1)) dflt,
                rs @ take (Suc j) (chunk_boundaries sz nSize nMid c)) \<and>
            nMid + length ys1 \<le> b \<and> b \<le> nSize \<and>
            b + 3 \<le> 3 * (nMid + length ys1) + e0 \<and>
            j < length (chunk_boundaries sz nSize nMid c) \<and>
            chunk_boundaries sz nSize nMid c ! j = b"
        by blast
      with run fr show ?thesis unfolding e0_def by auto
    next
      case (Done ys1 s1)
      have l1: "length ys1 = b1 - nMid" by (rule run_elems_length [OF Done])
      have lt: "nSize - b1 < nSize - nMid" using b1gt True by simp
      have len': "length (v @ ys1) = b1" using l1 less.prems(2) b1gt by simp
      have inv': "b1 < nSize \<longrightarrow> 0 < 3 * c \<and>
          1 + (3 * c - 1) div sz \<le> 2 * b1 + (1 + (STARTING_CHUNK_SIZE - 1) div sz)"
      proof
        assume "b1 < nSize"
        then have b1eq: "b1 = nMid + e" by (auto simp: b1_def min_def)
        have "1 + (3 * c - 1) div sz \<le> 3 * e"
          unfolding e_def by (rule ceil_div_triple [OF c0 sz0])
        also have "\<dots> \<le> 2 * b1 + e0" using ele by (simp add: b1eq)
        finally show "0 < 3 * c \<and>
          1 + (3 * c - 1) div sz \<le> 2 * b1 + (1 + (STARTING_CHUNK_SIZE - 1) div sz)"
          using c0 by (simp add: e0_def)
      qed
      from less.hyps [OF lt b1le len' inv', of "rs @ [b1]" s1]
      obtain r where r: "Unserialize_impl_loop unser dflt sz nSize b1 b1 (3 * c) (v @ ys1) (rs @ [b1]) s1 = Some r"
        and ok: "\<forall>ys s'. run_elems unser dflt (nSize - b1) s1 = Done ys s' \<longrightarrow>
           r = Done ((v @ ys1) @ ys, (rs @ [b1]) @ chunk_boundaries sz nSize b1 (3 * c)) s'"
        and bad: "\<forall>ex ys. run_elems unser dflt (nSize - b1) s1 = Thrown ex ys \<longrightarrow>
         (\<exists>b j. r = Thrown ex
               ((v @ ys1) @ ys @ replicate (b - (b1 + length ys)) dflt,
                (rs @ [b1]) @ take (Suc j) (chunk_boundaries sz nSize b1 (3 * c))) \<and>
            b1 + length ys \<le> b \<and> b \<le> nSize \<and>
            b + 3 \<le> 3 * (b1 + length ys) + e0 \<and>
            j < length (chunk_boundaries sz nSize b1 (3 * c)) \<and>
            chunk_boundaries sz nSize b1 (3 * c) ! j = b)"
        unfolding e0_def by blast
      have run: "Unserialize_impl_loop unser dflt sz nSize nMid nMid c v rs s = Some r"
        unfolding step Done using r by simp
      have nl: "\<And>ys. nMid + length (ys1 @ ys) = b1 + length ys"
        using l1 b1gt by simp
      have c1: "\<forall>ys s'. run_elems unser dflt (nSize - nMid) s = Done ys s' \<longrightarrow>
         r = Done (v @ ys, rs @ chunk_boundaries sz nSize nMid c) s'"
      proof (intro allI impI)
        fix ys s'
        assume "run_elems unser dflt (nSize - nMid) s = Done ys s'"
        then obtain ys2 where "run_elems unser dflt (nSize - b1) s1 = Done ys2 s'" "ys = ys1 @ ys2"
          unfolding full Done by (auto split: outcome.splits)
        with ok show "r = Done (v @ ys, rs @ chunk_boundaries sz nSize nMid c) s'"
          unfolding bs by simp
      qed
      have c2: "\<forall>ex ys. run_elems unser dflt (nSize - nMid) s = Thrown ex ys \<longrightarrow>
         (\<exists>b j. r = Thrown ex
               (v @ ys @ replicate (b - (nMid + length ys)) dflt,
                rs @ take (Suc j) (chunk_boundaries sz nSize nMid c)) \<and>
            nMid + length ys \<le> b \<and> b \<le> nSize \<and>
            b + 3 \<le> 3 * (nMid + length ys) + e0 \<and>
            j < length (chunk_boundaries sz nSize nMid c) \<and>
            chunk_boundaries sz nSize nMid c ! j = b)"
      proof (intro allI impI)
        fix ex ys
        assume "run_elems unser dflt (nSize - nMid) s = Thrown ex ys"
        then obtain ys2 where y2: "run_elems unser dflt (nSize - b1) s1 = Thrown ex ys2" "ys = ys1 @ ys2"
          unfolding full Done by (auto split: outcome.splits)
        with bad obtain b j where
          k: "r = Thrown ex
               ((v @ ys1) @ ys2 @ replicate (b - (b1 + length ys2)) dflt,
                (rs @ [b1]) @ take (Suc j) (chunk_boundaries sz nSize b1 (3 * c)))"
            "b1 + length ys2 \<le> b" "b \<le> nSize"
            "b + 3 \<le> 3 * (b1 + length ys2) + e0"
            "j < length (chunk_boundaries sz nSize b1 (3 * c))"
            "chunk_boundaries sz nSize b1 (3 * c) ! j = b"
          by blast
        show "\<exists>b j. r = Thrown ex
               (v @ ys @ replicate (b - (nMid + length ys)) dflt,
                rs @ take (Suc j) (chunk_boundaries sz nSize nMid c)) \<and>
            nMid + length ys \<le> b \<and> b \<le> nSize \<and>
            b + 3 \<le> 3 * (nMid + length ys) + e0 \<and>
            j < length (chunk_boundaries sz nSize nMid c) \<and>
            chunk_boundaries sz nSize nMid c ! j = b"
          using k unfolding bs y2(2) nl
          by (intro exI [of _ b] exI [of _ "Suc j"]) simp
      qed
      from run c1 c2 show ?thesis unfolding e0_def by blast
    qed
  qed
qed

lemma chunk_boundaries_bounds:
  "x \<in> set (chunk_boundaries sz n i c) \<Longrightarrow> i < x \<and> x \<le> n"
proof (induction sz n i c rule: chunk_boundaries.induct)
  case (1 sz n i c)
  show ?case
  proof (cases "i < n")
    case False
    with "1.prems" show ?thesis by (simp add: chunk_boundaries_Nil)
  next
    case True
    define b where "b = i + min (n - i) (1 + (c - 1) div sz)"
    from True have b: "i < b" "b \<le> n" by (simp_all add: b_def)
    from "1.prems" True have "x = b \<or> x \<in> set (chunk_boundaries sz n b (c * 3))"
      by (simp add: chunk_boundaries_Cons [OF True] b_def)
    then show ?thesis
    proof
      assume "x = b"
      with b show ?thesis by simp
    next
      assume "x \<in> set (chunk_boundaries sz n b (c * 3))"
      from "1.IH" [OF True refl this [unfolded b_def]] b show ?thesis
        by (simp add: b_def)
    qed
  qed
qed

lemma chunk_boundaries_sorted: "sorted (chunk_boundaries sz n i c)"
proof (induction sz n i c rule: chunk_boundaries.induct)
  case (1 sz n i c)
  show ?case
  proof (cases "i < n")
    case False
    then show ?thesis by (simp add: chunk_boundaries_Nil)
  next
    case True
    have "\<forall>x \<in> set (chunk_boundaries sz n (i + min (n - i) (1 + (c - 1) div sz)) (c * 3)).
        i + min (n - i) (1 + (c - 1) div sz) \<le> x"
      using chunk_boundaries_bounds by (metis less_imp_le)
    with "1.IH" [OF True refl] show ?thesis
      by (simp add: chunk_boundaries_Cons [OF True])
  qed
qed

lemma take_Suc_le_nth:
  assumes "sorted xs" and "j < length xs" and "x \<in> set (take (Suc j) xs)"
  shows "x \<le> xs ! j"
proof -
  from assms(3) obtain i where i: "i < length (take (Suc j) xs)" "take (Suc j) xs ! i = x"
    by (auto simp: in_set_conv_nth)
  then have "i \<le> j" "x = xs ! i" using assms(2) by simp_all
  with assms(1,2) show ?thesis by (simp add: sorted_nth_mono)
qed

lemma flat_traced_char:
  assumes r: "ReadCompactSize s = Inr (nSize, s1)"
  shows "\<exists>r. Unserialize_impl_flat_traced s v0 = Some r \<and>
     (nSize \<le> length s1 \<longrightarrow>
        r = Done (take nSize s1, chunk_boundaries 1 nSize 0 STARTING_CHUNK_SIZE) (drop nSize s1)) \<and>
     (length s1 < nSize \<longrightarrow>
        (\<exists>k b j. r = Thrown end_of_data
             (take k s1 @ replicate (b - k) 0,
              take (Suc j) (chunk_boundaries 1 nSize 0 STARTING_CHUNK_SIZE)) \<and>
           k \<le> length s1 \<and> k < b \<and> b \<le> nSize \<and>
           b \<le> 3 * k + STARTING_CHUNK_SIZE \<and>
           j < length (chunk_boundaries 1 nSize 0 STARTING_CHUNK_SIZE) \<and>
           chunk_boundaries 1 nSize 0 STARTING_CHUNK_SIZE ! j = b))"
proof -
  have n: "nSize < 2 ^ 32"
    using ReadCompactSize_le_MAX_SIZE [OF r] by (simp add: MAX_SIZE_def)
  have "\<exists>r. Unserialize_impl_flat_loop nSize 0 STARTING_CHUNK_SIZE [] [] s1 = Some r \<and>
     (nSize - 0 \<le> length s1 \<longrightarrow>
        r = Done ([] @ take (nSize - 0) s1, [] @ chunk_boundaries 1 nSize 0 STARTING_CHUNK_SIZE)
              (drop (nSize - 0) s1)) \<and>
     (length s1 < nSize - 0 \<longrightarrow>
        (\<exists>k b j. r = Thrown end_of_data
             ([] @ take k s1 @ replicate (b - (0 + k)) 0,
              [] @ take (Suc j) (chunk_boundaries 1 nSize 0 STARTING_CHUNK_SIZE)) \<and>
           k \<le> length s1 \<and> 0 + k < b \<and> b \<le> nSize \<and>
           b \<le> 3 * (0 + k) + STARTING_CHUNK_SIZE \<and>
           j < length (chunk_boundaries 1 nSize 0 STARTING_CHUNK_SIZE) \<and>
           chunk_boundaries 1 nSize 0 STARTING_CHUNK_SIZE ! j = b))"
    by (rule flat_loop_char [OF n]) simp_all
  then show ?thesis
    by (simp add: Unserialize_impl_flat_traced_def r)
qed

lemma elem_traced_char:
  assumes r: "ReadCompactSize s = Inr (nSize, s1)" and sz0: "0 < sz" and szle: "sz \<le> 2 ^ 28"
  shows "\<exists>r. Unserialize_impl_traced unser dflt sz s v0 = Some r \<and>
      (\<forall>ys s'. run_elems unser dflt nSize s1 = Done ys s' \<longrightarrow>
         r = Done (ys, chunk_boundaries sz nSize 0 STARTING_CHUNK_SIZE) s') \<and>
      (\<forall>ex ys. run_elems unser dflt nSize s1 = Thrown ex ys \<longrightarrow>
         (\<exists>b j. r = Thrown ex
               (ys @ replicate (b - length ys) dflt,
                take (Suc j) (chunk_boundaries sz nSize 0 STARTING_CHUNK_SIZE)) \<and>
            length ys \<le> b \<and> b \<le> nSize \<and>
            b + 3 \<le> 3 * length ys + (1 + (STARTING_CHUNK_SIZE - 1) div sz) \<and>
            j < length (chunk_boundaries sz nSize 0 STARTING_CHUNK_SIZE) \<and>
            chunk_boundaries sz nSize 0 STARTING_CHUNK_SIZE ! j = b))"
proof -
  have n: "nSize < 2 ^ 32"
    using ReadCompactSize_le_MAX_SIZE [OF r] by (simp add: MAX_SIZE_def)
  have "\<exists>r. Unserialize_impl_loop unser dflt sz nSize 0 0 STARTING_CHUNK_SIZE [] [] s1 = Some r \<and>
      (\<forall>ys s'. run_elems unser dflt (nSize - 0) s1 = Done ys s' \<longrightarrow>
         r = Done ([] @ ys, [] @ chunk_boundaries sz nSize 0 STARTING_CHUNK_SIZE) s') \<and>
      (\<forall>ex ys. run_elems unser dflt (nSize - 0) s1 = Thrown ex ys \<longrightarrow>
         (\<exists>b j. r = Thrown ex
               ([] @ ys @ replicate (b - (0 + length ys)) dflt,
                [] @ take (Suc j) (chunk_boundaries sz nSize 0 STARTING_CHUNK_SIZE)) \<and>
            0 + length ys \<le> b \<and> b \<le> nSize \<and>
            b + 3 \<le> 3 * (0 + length ys) + (1 + (STARTING_CHUNK_SIZE - 1) div sz) \<and>
            j < length (chunk_boundaries sz nSize 0 STARTING_CHUNK_SIZE) \<and>
            chunk_boundaries sz nSize 0 STARTING_CHUNK_SIZE ! j = b))"
    by (rule elem_loop_char [OF n sz0 szle]) (simp_all add: STARTING_CHUNK_SIZE_def)
  then show ?thesis
    by (simp add: Unserialize_impl_traced_def r)
qed

lemma run_elems_uint8:
  "run_elems Unserialize_uint8 dflt n s =
     (if n \<le> length s then Done (take n s) (drop n s) else Thrown end_of_data (s @ [dflt]))"
proof (induction n arbitrary: s)
  case 0
  then show ?case by simp
next
  case (Suc n)
  show ?case by (cases s) (simp_all add: Suc.IH)
qed

lemma resizes_simps [simp]:
  "resizes (Done (v, rs) s) = rs" "resizes (Thrown e (v, rs)) = rs"
  by simp_all

lemma untraced_simps [simp]:
  "untraced (Done (v, rs) s) = Done v s" "untraced (Thrown e (v, rs)) = Thrown e v"
  by simp_all


lemma flat_success:
  assumes r: "ReadCompactSize s = Inr (nSize, s1)" and long: "nSize \<le> length s1"
  shows "Unserialize_impl_flat_traced s v0 =
     Some (Done (take nSize s1, chunk_boundaries 1 nSize 0 STARTING_CHUNK_SIZE) (drop nSize s1))"
  using flat_traced_char [OF r, of v0] long by auto

lemma elem_failure:
  assumes r: "ReadCompactSize s = Inr (nSize, s1)" and sz: "0 < sz" "sz \<le> 2 ^ 28"
    and run: "run_elems unser dflt nSize s1 = Thrown ex ys"
  shows "\<exists>b j. Unserialize_impl_traced unser dflt sz s w0 = Some (Thrown ex
               (ys @ replicate (b - length ys) dflt,
                take (Suc j) (chunk_boundaries sz nSize 0 STARTING_CHUNK_SIZE))) \<and>
            length ys \<le> b \<and> b \<le> nSize \<and>
            b + 3 \<le> 3 * length ys + (1 + (STARTING_CHUNK_SIZE - 1) div sz) \<and>
            j < length (chunk_boundaries sz nSize 0 STARTING_CHUNK_SIZE) \<and>
            chunk_boundaries sz nSize 0 STARTING_CHUNK_SIZE ! j = b"
proof -
  from elem_traced_char [OF r sz, of unser dflt w0] obtain x where
    x: "Unserialize_impl_traced unser dflt sz s w0 = Some x"
    and bad: "\<forall>ex ys. run_elems unser dflt nSize s1 = Thrown ex ys \<longrightarrow>
         (\<exists>b j. x = Thrown ex
               (ys @ replicate (b - length ys) dflt,
                take (Suc j) (chunk_boundaries sz nSize 0 STARTING_CHUNK_SIZE)) \<and>
            length ys \<le> b \<and> b \<le> nSize \<and>
            b + 3 \<le> 3 * length ys + (1 + (STARTING_CHUNK_SIZE - 1) div sz) \<and>
            j < length (chunk_boundaries sz nSize 0 STARTING_CHUNK_SIZE) \<and>
            chunk_boundaries sz nSize 0 STARTING_CHUNK_SIZE ! j = b)"
    by blast
  from bad [rule_format, OF run] show ?thesis unfolding x by simp
qed




lemma elem_failure_bound:
  assumes r: "ReadCompactSize s = Inr (nSize, s1)" and sz: "0 < sz" "sz \<le> 2 ^ 28"
    and run: "run_elems unser dflt nSize s1 = Thrown ex ys"
  shows "\<exists>v' rs. Unserialize_impl_traced unser dflt sz s w0 = Some (Thrown ex (v', rs)) \<and>
           length v' + 3 \<le> 3 * length ys + (1 + (STARTING_CHUNK_SIZE - 1) div sz) \<and>
           length v' \<le> nSize \<and> (\<forall>x\<in>set rs. x \<le> length v')"
proof -
  from elem_failure [OF r sz run, of w0] obtain b j where
    x: "Unserialize_impl_traced unser dflt sz s w0 = Some (Thrown ex
               (ys @ replicate (b - length ys) dflt,
                take (Suc j) (chunk_boundaries sz nSize 0 STARTING_CHUNK_SIZE)))"
    and b: "length ys \<le> b" "b \<le> nSize"
      "b + 3 \<le> 3 * length ys + (1 + (STARTING_CHUNK_SIZE - 1) div sz)"
    and j: "j < length (chunk_boundaries sz nSize 0 STARTING_CHUNK_SIZE)"
      "chunk_boundaries sz nSize 0 STARTING_CHUNK_SIZE ! j = b"
    by (elim exE conjE)
  have len: "length (ys @ replicate (b - length ys) dflt) = b" using b(1) by simp
  have log: "\<forall>x\<in>set (take (Suc j) (chunk_boundaries sz nSize 0 STARTING_CHUNK_SIZE)). x \<le> b"
    using take_Suc_le_nth [OF chunk_boundaries_sorted j(1)] j(2) by blast
  from x len log b(2,3) show ?thesis by (metis (no_types, lifting))
qed

lemma uint8_failure_bound:
  assumes r: "ReadCompactSize s = Inr (nSize, s1)" and short: "length s1 < nSize"
  shows "\<exists>v' rs. Unserialize_impl_traced Unserialize_uint8 dflt sizeof_uint8_t s w0 =
             Some (Thrown end_of_data (v', rs)) \<and>
           length v' \<le> 3 * length s1 + STARTING_CHUNK_SIZE \<and> length v' \<le> nSize \<and>
           (\<forall>x\<in>set rs. x \<le> length v')"
proof -
  have run: "run_elems Unserialize_uint8 dflt nSize s1 = Thrown end_of_data (s1 @ [dflt])"
    using short by (simp add: run_elems_uint8)
  have sz: "0 < sizeof_uint8_t" "sizeof_uint8_t \<le> 2 ^ 28" by (simp_all add: sizeof_uint8_t_def)
  from elem_failure_bound [OF r sz run, of w0] obtain v' rs where
    x: "Unserialize_impl_traced Unserialize_uint8 dflt sizeof_uint8_t s w0 =
         Some (Thrown end_of_data (v', rs))"
    and b: "length v' + 3 \<le> 3 * length (s1 @ [dflt]) + (1 + (STARTING_CHUNK_SIZE - 1) div sizeof_uint8_t)"
    and rest: "length v' \<le> nSize" "\<forall>x\<in>set rs. x \<le> length v'"
    by (elim exE conjE)
  from b have "length v' \<le> 3 * length s1 + STARTING_CHUNK_SIZE"
    by (simp add: sizeof_uint8_t_def STARTING_CHUNK_SIZE_def)
  with x rest show ?thesis by blast
qed




lemma chunk_boundaries_5: "chunk_boundaries (Suc 0) 5 0 STARTING_CHUNK_SIZE = [5]"
  by (simp add: chunk_boundaries_Cons chunk_boundaries_Nil STARTING_CHUNK_SIZE_def)


lemma elem_underrun_example:
  "Unserialize_impl Unserialize_uint8 0 sizeof_uint8_t [0x05, 0xAA, 0xBB] w0 =
     Some (Thrown end_of_data [0xAA, 0xBB, 0, 0, 0])"
proof -
  have r: "ReadCompactSize [0x05, 0xAA, 0xBB] = Inr (5, [0xAA, 0xBB])"
    using ReadCompactSize_small [of 5] by simp
  have run: "run_elems Unserialize_uint8 0 5 [0xAA, 0xBB] = Thrown end_of_data [0xAA, 0xBB, 0]"
    by (simp add: run_elems_uint8)
  have sz: "0 < sizeof_uint8_t" "sizeof_uint8_t \<le> 2 ^ 28" by (simp_all add: sizeof_uint8_t_def)
  from elem_failure [OF r sz run, of w0] obtain b j where
    y: "Unserialize_impl_traced Unserialize_uint8 0 sizeof_uint8_t [0x05, 0xAA, 0xBB] w0 =
          Some (Thrown end_of_data
               ([0xAA, 0xBB, 0] @ replicate (b - length [0xAA, 0xBB, 0 :: byte]) 0,
                take (Suc j) (chunk_boundaries sizeof_uint8_t 5 0 STARTING_CHUNK_SIZE)))"
    and j: "j < length (chunk_boundaries sizeof_uint8_t 5 0 STARTING_CHUNK_SIZE)"
      "chunk_boundaries sizeof_uint8_t 5 0 STARTING_CHUNK_SIZE ! j = b"
    by (elim exE conjE)
  from j have b: "b = 5" by (simp add: chunk_boundaries_5 sizeof_uint8_t_def)
  have "replicate 2 (0::byte) = [0, 0]" by (simp add: numeral_eq_Suc)
  then show ?thesis unfolding Unserialize_impl_def y b by simp
qed




text \<open>
  Claim C10. Each container decode begins by clearing its destination, so its whole
  outcome (the decoded container and the rest of the stream on success, the exception and
  the destination left behind on failure) is the same for any two prior contents of the
  destination. The vector functions also model the prevector overloads, whose bodies are
  the same.
\<close>

theorem decode_ignores_prior_contents:
  "Unserialize_impl_flat s v1 = Unserialize_impl_flat s v2 \<and>
   Unserialize_impl unser dflt sizeof_T s w1 = Unserialize_impl unser dflt sizeof_T s w2 \<and>
   Unserialize_map unserK unserV dfltp s m1 = Unserialize_map unserK unserV dfltp s m2 \<and>
   Unserialize_set unserS dflts s k1 = Unserialize_set unserS dflts s k2"
  by (simp add: Unserialize_impl_flat_def Unserialize_impl_flat_traced_def
      Unserialize_impl_def Unserialize_impl_traced_def Unserialize_map_def Unserialize_set_def)


theorem decode_ignores_prior_contents_witness:
  "Unserialize_impl_flat [0x02, 0xAA, 0xBB, 0xCC] [0x01, 0x02, 0x03] =
     Some (Done [0xAA, 0xBB] [0xCC]) \<and>
   Unserialize_impl_flat [0x02, 0xAA, 0xBB, 0xCC] [] = Some (Done [0xAA, 0xBB] [0xCC]) \<and>
   Unserialize_impl Unserialize_uint8 0 sizeof_uint8_t [0x05, 0xAA, 0xBB] [0x01, 0x02, 0x03] =
     Some (Thrown end_of_data [0xAA, 0xBB, 0, 0, 0]) \<and>
   Unserialize_set Unserialize_uint8 0 [0x03, 0x05, 0x06, 0x05] {1, 2} = Done {5, 6} [] \<and>
   Unserialize_set Unserialize_uint8 0 [0x03, 0x05, 0x06, 0x05] {} = Done {5, 6} []"
proof -
  let ?s = "[0x02, 0xAA, 0xBB, 0xCC] :: byte list"
  let ?t = "[0x03, 0x05, 0x06, 0x05] :: byte list"
  let ?u = "[0x05, 0xAA, 0xBB] :: byte list"
  note eq = decode_ignores_prior_contents [of ?s "[0x01, 0x02, 0x03]" "[]"
      Unserialize_uint8 0 sizeof_uint8_t "[0x01, 0x02, 0x03]" "[]"
      Unserialize_uint8 Unserialize_uint8 "(0, 0)" "Map.empty" "Map.empty"
      Unserialize_uint8 0 "{}" "{}"]
  note eq' = decode_ignores_prior_contents [of ?u "[]" "[]"
      Unserialize_uint8 0 sizeof_uint8_t "[0x01, 0x02, 0x03]" "[]"
      Unserialize_uint8 Unserialize_uint8 "(0, 0)" "Map.empty" "Map.empty"
      Unserialize_uint8 0 "{}" "{}"]
  note eq'' = decode_ignores_prior_contents [of ?t "[]" "[]"
      Unserialize_uint8 0 sizeof_uint8_t "[]" "[]"
      Unserialize_uint8 Unserialize_uint8 "(0, 0)" "Map.empty" "Map.empty"
      Unserialize_uint8 0 "{1, 2}" "{}"]
  have r: "ReadCompactSize ?s = Inr (2, [0xAA, 0xBB, 0xCC])"
    using ReadCompactSize_small [of 2] by simp
  have long: "2 \<le> length [0xAA, 0xBB, 0xCC :: byte]" by simp
  have a: "Unserialize_impl_flat ?s [] = Some (Done [0xAA, 0xBB] [0xCC])"
    unfolding Unserialize_impl_flat_def flat_success [OF r long] by (simp add: numeral_2_eq_2)
  have b: "Unserialize_impl_flat ?s [0x01, 0x02, 0x03] = Some (Done [0xAA, 0xBB] [0xCC])"
    using eq [THEN conjunct1] a by simp
  have c: "Unserialize_impl Unserialize_uint8 0 sizeof_uint8_t ?u [0x01, 0x02, 0x03] =
     Some (Thrown end_of_data [0xAA, 0xBB, 0, 0, 0])"
    using eq' [THEN conjunct2, THEN conjunct1] elem_underrun_example [of "[]"] by simp
  have rs: "ReadCompactSize ?t = Inr (3, [0x05, 0x06, 0x05])"
    using ReadCompactSize_small [of 3] by simp
  have runs: "run_elems Unserialize_uint8 0 3 [0x05, 0x06, 0x05] = Done [5, 6, 5] []"
    by (simp add: numeral_3_eq_3)
  have d: "Unserialize_set Unserialize_uint8 0 ?t {} = Done {5, 6} []"
    by (simp add: Unserialize_set_def rs Unserialize_set_loop_run [of 3 3 0, simplified] runs
        set_insert_def insert_commute)
  have e: "Unserialize_set Unserialize_uint8 0 ?t {1, 2} = Done {5, 6} []"
    using eq'' [THEN conjunct2, THEN conjunct2, THEN conjunct2] d by simp
  from b a c e d show ?thesis by (intro conjI)
qed

lemma WriteCompactSize_cases:
  "if MAX_SIZE < n
   then WriteCompactSize write s n = Inl (ios_failure ''WriteCompactSize(): size too large'')
   else \<exists>s'. WriteCompactSize write s n = Inr s'"
  by (simp add: WriteCompactSize_def)

lemma bindE_cases:
  assumes "if A then m = Inl E else \<exists>x. m = Inr x"
    and "\<And>x. if B then f x = Inl E else \<exists>y. f x = Inr y"
  shows "if A \<or> B then bindE m f = Inl E else \<exists>y. bindE m f = Inr y"
proof (cases A)
  case True
  with assms(1) show ?thesis by simp
next
  case False
  with assms(1) obtain x where "m = Inr x" by auto
  with assms(2) [of x] False show ?thesis by simp
qed

lemma blob_cases:
  "if MAX_SIZE < length bs
   then bindE (WriteCompactSize write s (length bs))
          (\<lambda>s'. Inr (if bs \<noteq> [] then write s' bs else s')) =
        Inl (ios_failure ''WriteCompactSize(): size too large'')
   else \<exists>y. bindE (WriteCompactSize write s (length bs))
          (\<lambda>s'. Inr (if bs \<noteq> [] then write s' bs else s')) = Inr y"
  using bindE_cases [OF WriteCompactSize_cases [of "length bs" "write" s],
      of False "\<lambda>s'. Inr (if bs \<noteq> [] then write s' bs else s')"]
  by simp

lemma Serialize_cases_aux:
  "wcs = WriteCompactSize write \<Longrightarrow>
     (if \<exists>n\<in>set (compact_sizes v). MAX_SIZE < n
      then Serialize write wcs s v = Inl (ios_failure ''WriteCompactSize(): size too large'')
      else \<exists>s'. Serialize write wcs s v = Inr s')"
  "wcs = WriteCompactSize write \<Longrightarrow>
     (if \<exists>n\<in>set (compact_sizes_many xs). MAX_SIZE < n
      then SerializeMany write wcs s xs = Inl (ios_failure ''WriteCompactSize(): size too large'')
      else \<exists>s'. SerializeMany write wcs s xs = Inr s')"
  "wcs = WriteCompactSize write \<Longrightarrow>
     (if \<exists>n\<in>set (compact_sizes_pairs ps). MAX_SIZE < n
      then SerializePairs write wcs s ps = Inl (ios_failure ''WriteCompactSize(): size too large'')
      else \<exists>s'. SerializePairs write wcs s ps = Inr s')"
proof (induction "write" wcs s v and "write" wcs s xs and "write" wcs s ps
    rule: Serialize_SerializeMany_SerializePairs.induct)
  case (10 wr wcs s n)
  then show ?case
    using WriteCompactSize_cases [of n wr s] by (simp add: Serialize.simps)
next
  case (11 wr wcs s bs)
  then show ?case using blob_cases [of bs wr s] by (simp add: Serialize.simps)
next
  case (12 wr wcs s bs)
  then show ?case using blob_cases [of bs wr s] by (simp add: Serialize.simps)
next
  case (13 wr wcs s bs)
  then show ?case using blob_cases [of bs wr s] by (simp add: Serialize.simps)
next
  case (14 wr wcs s xs)
  from bindE_cases [OF WriteCompactSize_cases [of "length xs" wr s],
      of "\<exists>n\<in>set (compact_sizes_many xs). MAX_SIZE < n"
         "\<lambda>s'. SerializeMany wr wcs s' xs", OF "14.IH" [OF "14.prems"]]
  show ?case using "14.prems" by (auto simp: Serialize.simps split: if_splits)
next
  case (15 wr wcs s a b)
  from bindE_cases [OF "15.IH"(1) [OF "15.prems"],
      of "\<exists>n\<in>set (compact_sizes b). MAX_SIZE < n"
         "\<lambda>s'. Serialize wr wcs s' b", OF "15.IH"(2) [OF "15.prems"]]
  show ?case using "15.prems" by (auto simp: Serialize.simps bex_Un split: if_splits)
next
  case (16 wr wcs s m)
  from bindE_cases [OF WriteCompactSize_cases [of "length m" wr s],
      of "\<exists>n\<in>set (compact_sizes_pairs m). MAX_SIZE < n"
         "\<lambda>s'. SerializePairs wr wcs s' m", OF "16.IH" [OF "16.prems"]]
  show ?case using "16.prems" by (auto simp: Serialize.simps split: if_splits)
next
  case (17 wr wcs s m)
  from bindE_cases [OF WriteCompactSize_cases [of "length m" wr s],
      of "\<exists>n\<in>set (compact_sizes_many m). MAX_SIZE < n"
         "\<lambda>s'. SerializeMany wr wcs s' m", OF "17.IH" [OF "17.prems"]]
  show ?case using "17.prems" by (auto simp: Serialize.simps split: if_splits)
next
  case (18 wr wcs s p)
  then show ?case by (auto simp: Serialize.simps split: if_splits)
next
  case (19 wr wcs s p)
  then show ?case by (auto simp: Serialize.simps split: if_splits)
next
  case (21 wr wcs s fields)
  then show ?case by (auto simp: Serialize.simps split: if_splits)
next
  case (23 wr wcs s arg args)
  from bindE_cases [OF "23.IH"(1) [OF "23.prems"],
      of "\<exists>n\<in>set (compact_sizes_many args). MAX_SIZE < n"
         "\<lambda>s'. SerializeMany wr wcs s' args", OF "23.IH"(2) [OF "23.prems"]]
  show ?case using "23.prems" by (auto simp: Serialize.simps bex_Un split: if_splits)
next
  case (25 wr wcs s a b ps)
  have ab: "if (\<exists>n\<in>set (compact_sizes a). MAX_SIZE < n) \<or> (\<exists>n\<in>set (compact_sizes b). MAX_SIZE < n)
     then bindE (Serialize wr wcs s a) (\<lambda>s'. Serialize wr wcs s' b) =
        Inl (ios_failure ''WriteCompactSize(): size too large'')
     else \<exists>y. bindE (Serialize wr wcs s a) (\<lambda>s'. Serialize wr wcs s' b) = Inr y"
    by (rule bindE_cases [OF "25.IH"(1) [OF "25.prems"] "25.IH"(2) [OF "25.prems"]])
  from bindE_cases [OF ab, of "\<exists>n\<in>set (compact_sizes_pairs ps). MAX_SIZE < n"
         "\<lambda>s'. SerializePairs wr wcs s' ps", OF "25.IH"(3) [OF "25.prems"]]
  show ?case using "25.prems" by (auto simp: Serialize.simps bex_Un split: if_splits)
qed (simp_all add: Serialize.simps)

lemma Serialize_err_aux:
  "(\<forall>s n e. wcs s n = Inl e \<longrightarrow>
      e = ios_failure ''WriteCompactSize(): size too large'' \<and> MAX_SIZE < n) \<Longrightarrow>
   Serialize wr wcs s v = Inl e \<Longrightarrow>
     e = ios_failure ''WriteCompactSize(): size too large'' \<and>
     (\<exists>n\<in>set (compact_sizes v). MAX_SIZE < n)"
  "(\<forall>s n e. wcs s n = Inl e \<longrightarrow>
      e = ios_failure ''WriteCompactSize(): size too large'' \<and> MAX_SIZE < n) \<Longrightarrow>
   SerializeMany wr wcs s xs = Inl e \<Longrightarrow>
     e = ios_failure ''WriteCompactSize(): size too large'' \<and>
     (\<exists>n\<in>set (compact_sizes_many xs). MAX_SIZE < n)"
  "(\<forall>s n e. wcs s n = Inl e \<longrightarrow>
      e = ios_failure ''WriteCompactSize(): size too large'' \<and> MAX_SIZE < n) \<Longrightarrow>
   SerializePairs wr wcs s ps = Inl e \<Longrightarrow>
     e = ios_failure ''WriteCompactSize(): size too large'' \<and>
     (\<exists>n\<in>set (compact_sizes_pairs ps). MAX_SIZE < n)"
proof (induction wr wcs s v and wr wcs s xs and wr wcs s ps
    rule: Serialize_SerializeMany_SerializePairs.induct)
  case (10 wr wcs s n)
  then show ?case by (auto simp: Serialize.simps WriteCompactSize_def split: if_splits)
next
  case (11 wr wcs s bs)
  then show ?case by (auto simp: Serialize.simps bindE_eq_Inl)
next
  case (12 wr wcs s bs)
  then show ?case by (auto simp: Serialize.simps bindE_eq_Inl)
next
  case (13 wr wcs s bs)
  then show ?case by (auto simp: Serialize.simps bindE_eq_Inl)
next
  case (14 wr wcs s xs)
  from "14.prems"(2) consider "wcs s (length xs) = Inl e"
    | s1 where "SerializeMany wr wcs s1 xs = Inl e"
    by (auto simp: Serialize.simps bindE_eq_Inl)
  then show ?case
  proof cases
    case 1
    with "14.prems"(1) show ?thesis by auto
  next
    case 2
    from "14.IH" [OF "14.prems"(1) 2] show ?thesis by simp
  qed
next
  case (15 wr wcs s a b)
  from "15.prems"(2) consider "Serialize wr wcs s a = Inl e"
    | s1 where "Serialize wr wcs s1 b = Inl e"
    by (auto simp: Serialize.simps bindE_eq_Inl)
  then show ?case
  proof cases
    case 1
    from "15.IH"(1) [OF "15.prems"(1) 1] show ?thesis by auto
  next
    case 2
    from "15.IH"(2) [OF "15.prems"(1) 2] show ?thesis by auto
  qed
next
  case (16 wr wcs s m)
  from "16.prems"(2) consider "wcs s (length m) = Inl e"
    | s1 where "SerializePairs wr wcs s1 m = Inl e"
    by (auto simp: Serialize.simps bindE_eq_Inl)
  then show ?case
  proof cases
    case 1
    with "16.prems"(1) show ?thesis by auto
  next
    case 2
    from "16.IH" [OF "16.prems"(1) 2] show ?thesis by simp
  qed
next
  case (17 wr wcs s m)
  from "17.prems"(2) consider "wcs s (length m) = Inl e"
    | s1 where "SerializeMany wr wcs s1 m = Inl e"
    by (auto simp: Serialize.simps bindE_eq_Inl)
  then show ?case
  proof cases
    case 1
    with "17.prems"(1) show ?thesis by auto
  next
    case 2
    from "17.IH" [OF "17.prems"(1) 2] show ?thesis by simp
  qed
next
  case (18 wr wcs s p)
  then show ?case by (simp add: Serialize.simps)
next
  case (19 wr wcs s p)
  then show ?case by (simp add: Serialize.simps)
next
  case (21 wr wcs s fields)
  then show ?case by (simp add: Serialize.simps)
next
  case (23 wr wcs s arg args)
  from "23.prems"(2) consider "Serialize wr wcs s arg = Inl e"
    | s1 where "SerializeMany wr wcs s1 args = Inl e"
    by (auto simp: Serialize.simps bindE_eq_Inl)
  then show ?case
  proof cases
    case 1
    from "23.IH"(1) [OF "23.prems"(1) 1] show ?thesis by auto
  next
    case 2
    from "23.IH"(2) [OF "23.prems"(1) 2] show ?thesis by auto
  qed
next
  case (25 wr wcs s a b ps)
  from "25.prems"(2) consider "Serialize wr wcs s a = Inl e"
    | s1 where "Serialize wr wcs s1 b = Inl e"
    | s2 where "SerializePairs wr wcs s2 ps = Inl e"
    by (auto simp: Serialize.simps bindE_eq_Inl)
  then show ?case
  proof cases
    case 1
    from "25.IH"(1) [OF "25.prems"(1) 1] show ?thesis by auto
  next
    case 2
    from "25.IH"(2) [OF "25.prems"(1) 2] show ?thesis by auto
  next
    case 3
    from "25.IH"(3) [OF "25.prems"(1) 3] show ?thesis by auto
  qed
qed (simp_all add: Serialize.simps)

lemma GetSerializeSize_err:
  assumes "GetSerializeSize v = Inl e"
  shows "e = ios_failure ''WriteCompactSize(): size too large'' \<and>
     (\<exists>n\<in>set (compact_sizes v). MAX_SIZE < n)"
proof -
  have w: "\<forall>s n e. WriteCompactSize_CSizeComputer s n = Inl e \<longrightarrow>
      e = ios_failure ''WriteCompactSize(): size too large'' \<and> MAX_SIZE < n"
    by (simp add: WriteCompactSize_CSizeComputer_def)
  from assms have "Serialize CSizeComputer_write WriteCompactSize_CSizeComputer 0 v = Inl e"
    by (simp add: GetSerializeSize_def)
  from Serialize_err_aux(1) [OF w this] show ?thesis .
qed

lemma WriteCompactSize_length:
  "WriteCompactSize byte_sink_write os n = Inr os' \<Longrightarrow>
     n \<le> MAX_SIZE \<and> length os' \<le> length os + 5"
  unfolding WriteCompactSize_bytes by (auto split: if_splits simp: MAX_SIZE_def)

text \<open>
  Claim C6. \<open>MAX_SIZE\<close> is \<open>2^32 - 1\<close>. Whatever the sink, \<open>WriteCompactSize\<close> raises its
  size-too-large failure for every value above \<open>MAX_SIZE\<close>, it fails for no other value and
  with no other exception, and into a byte sink it writes at most five bytes, so never a
  9-byte form. \<open>ReadCompactSize\<close> raises its size-too-large failure for every marker-255
  payload above \<open>MAX_SIZE\<close> (the only marker that can carry one) and never returns a value
  above \<open>MAX_SIZE\<close>. Both failures are of the kind \<open>SizeTooLargeError\<close>. Whatever the sink,
  serializing a value fails exactly when one of the CompactSize values it writes is above
  \<open>MAX_SIZE\<close>, and then with the size-too-large failure of \<open>WriteCompactSize\<close>; there is no
  other encode-side failure, and none either in the size computation.
\<close>

theorem CompactSize_ceiling:
  "MAX_SIZE = 2 ^ 32 - 1 \<and>
   (\<forall>wr os n. MAX_SIZE < n \<longrightarrow>
      WriteCompactSize wr os n = Inl (ios_failure ''WriteCompactSize(): size too large'')) \<and>
   (\<forall>wr os n e. WriteCompactSize wr os n = Inl e \<longrightarrow>
      MAX_SIZE < n \<and> e = ios_failure ''WriteCompactSize(): size too large'') \<and>
   (\<forall>os n os'. WriteCompactSize byte_sink_write os n = Inr os' \<longrightarrow>
      n \<le> MAX_SIZE \<and> length os' \<le> length os + 5) \<and>
   (\<forall>p rest. length p = 8 \<and> MAX_SIZE < letoh p \<longrightarrow>
      ReadCompactSize (0xFF # p @ rest) = Inl (ios_failure ''ReadCompactSize(): size too large'')) \<and>
   (\<forall>s n rest. ReadCompactSize s = Inr (n, rest) \<longrightarrow> n \<le> MAX_SIZE) \<and>
   error_kind (ios_failure ''WriteCompactSize(): size too large'') = Some SizeTooLargeError \<and>
   error_kind (ios_failure ''ReadCompactSize(): size too large'') = Some SizeTooLargeError \<and>
   (\<forall>wr s v e. Serialize wr (WriteCompactSize wr) s v = Inl e \<longrightarrow>
      e = ios_failure ''WriteCompactSize(): size too large'' \<and>
      (\<exists>n\<in>set (compact_sizes v). MAX_SIZE < n)) \<and>
   (\<forall>wr s v. (\<exists>n\<in>set (compact_sizes v). MAX_SIZE < n) \<longrightarrow>
      Serialize wr (WriteCompactSize wr) s v =
        Inl (ios_failure ''WriteCompactSize(): size too large'')) \<and>
   (\<forall>v e. Serialize_bytes v = Inl e \<longrightarrow>
      e = ios_failure ''WriteCompactSize(): size too large'' \<and>
      (\<exists>n\<in>set (compact_sizes v). MAX_SIZE < n)) \<and>
   (\<forall>v e. GetSerializeSize v = Inl e \<longrightarrow>
      e = ios_failure ''WriteCompactSize(): size too large'' \<and>
      (\<exists>n\<in>set (compact_sizes v). MAX_SIZE < n))"
proof -
  have m: "MAX_SIZE = 2 ^ 32 - 1" by (simp add: MAX_SIZE_def)
  have w: "\<forall>wr os n. MAX_SIZE < n \<longrightarrow>
      WriteCompactSize wr os n = Inl (ios_failure ''WriteCompactSize(): size too large'')"
    by (simp add: WriteCompactSize_def)
  have w': "\<forall>wr os n e. WriteCompactSize wr os n = Inl e \<longrightarrow>
      MAX_SIZE < n \<and> e = ios_failure ''WriteCompactSize(): size too large''"
    by (auto simp: WriteCompactSize_def split: if_splits)
  have l: "\<forall>os n os'. WriteCompactSize byte_sink_write os n = Inr os' \<longrightarrow>
      n \<le> MAX_SIZE \<and> length os' \<le> length os + 5"
    using WriteCompactSize_length by blast
  have r: "\<forall>p rest. length p = 8 \<and> MAX_SIZE < letoh p \<longrightarrow>
      ReadCompactSize (0xFF # p @ rest) = Inl (ios_failure ''ReadCompactSize(): size too large'')"
    by (simp add: ReadCompactSize_255 MAX_SIZE_def)
  have le: "\<forall>s n rest. ReadCompactSize s = Inr (n, rest) \<longrightarrow> n \<le> MAX_SIZE"
    using ReadCompactSize_le_MAX_SIZE by blast
  have k: "error_kind (ios_failure ''WriteCompactSize(): size too large'') = Some SizeTooLargeError"
    "error_kind (ios_failure ''ReadCompactSize(): size too large'') = Some SizeTooLargeError"
    by (simp_all add: error_kind_def)
  have e1: "\<forall>wr s v e. Serialize wr (WriteCompactSize wr) s v = Inl e \<longrightarrow>
      e = ios_failure ''WriteCompactSize(): size too large'' \<and>
      (\<exists>n\<in>set (compact_sizes v). MAX_SIZE < n)"
  proof (intro allI impI)
    fix wr :: "'s \<Rightarrow> byte list \<Rightarrow> 's" and s v e
    assume a: "Serialize wr (WriteCompactSize wr) s v = Inl e"
    from Serialize_cases_aux(1) [OF refl, of v wr s] a
    show "e = ios_failure ''WriteCompactSize(): size too large'' \<and>
      (\<exists>n\<in>set (compact_sizes v). MAX_SIZE < n)"
      by (auto split: if_splits)
  qed
  have e2: "\<forall>wr s v. (\<exists>n\<in>set (compact_sizes v). MAX_SIZE < n) \<longrightarrow>
      Serialize wr (WriteCompactSize wr) s v =
        Inl (ios_failure ''WriteCompactSize(): size too large'')"
  proof (intro allI impI)
    fix wr :: "'t \<Rightarrow> byte list \<Rightarrow> 't" and s v
    assume a: "\<exists>n\<in>set (compact_sizes v). MAX_SIZE < n"
    from Serialize_cases_aux(1) [OF refl, of v wr s] a
    show "Serialize wr (WriteCompactSize wr) s v =
        Inl (ios_failure ''WriteCompactSize(): size too large'')"
      by simp
  qed
  have e3: "\<forall>v e. Serialize_bytes v = Inl e \<longrightarrow>
      e = ios_failure ''WriteCompactSize(): size too large'' \<and>
      (\<exists>n\<in>set (compact_sizes v). MAX_SIZE < n)"
  proof (intro allI impI)
    fix v e
    assume a: "Serialize_bytes v = Inl e"
    from Serialize_cases_aux(1) [OF refl, of v byte_sink_write "[]"] a
    show "e = ios_failure ''WriteCompactSize(): size too large'' \<and>
      (\<exists>n\<in>set (compact_sizes v). MAX_SIZE < n)"
      by (auto simp: Serialize_bytes_def split: if_splits)
  qed
  have e4: "\<forall>v e. GetSerializeSize v = Inl e \<longrightarrow>
      e = ios_failure ''WriteCompactSize(): size too large'' \<and>
      (\<exists>n\<in>set (compact_sizes v). MAX_SIZE < n)"
    using GetSerializeSize_err by blast
  from m w w' l r le k e1 e2 e3 e4 show ?thesis by (intro conjI)
qed

theorem CompactSize_ceiling_witness:
  "WriteCompactSize byte_sink_write [] 4294967296
     = Inl (ios_failure ''WriteCompactSize(): size too large'') \<and>
   WriteCompactSize byte_sink_write [] 4294967295 = Inr [0xFE, 0xFF, 0xFF, 0xFF, 0xFF] \<and>
   length [0xFE, 0xFF, 0xFF, 0xFF, 0xFF :: byte] \<le> length ([] :: byte list) + 5 \<and>
   ReadCompactSize [0xFF, 0x00, 0x00, 0x00, 0x00, 0x01, 0x00, 0x00, 0x00]
     = Inl (ios_failure ''ReadCompactSize(): size too large'') \<and>
   ReadCompactSize [0xFE, 0xFF, 0xFF, 0xFF, 0xFF] = Inr (4294967295, []) \<and>
   4294967295 \<le> MAX_SIZE \<and>
   compact_sizes (VVector [VCompactSize 4294967296]) = [1, 4294967296] \<and>
   Serialize_bytes (VVector [VCompactSize 4294967296])
     = Inl (ios_failure ''WriteCompactSize(): size too large'') \<and>
   Serialize_bytes (VVector [VCompactSize 4294967295]) = Inr [0x01, 0xFE, 0xFF, 0xFF, 0xFF, 0xFF] \<and>
   GetSerializeSize (VCompactSize 4294967296)
     = Inl (ios_failure ''WriteCompactSize(): size too large'')"
proof -
  note T1 = CompactSize_ceiling [THEN conjunct2]
  note T2 = T1 [THEN conjunct2]
  note T3 = T2 [THEN conjunct2]
  note T4 = T3 [THEN conjunct2]
  note T5 = T4 [THEN conjunct2]
  note T8 = T5 [THEN conjunct2, THEN conjunct2, THEN conjunct2]
  note w = T1 [THEN conjunct1]
  note l = T3 [THEN conjunct1]
  note r = T4 [THEN conjunct1]
  note le = T5 [THEN conjunct1]
  note e2 = T8 [THEN conjunct2, THEN conjunct1]
  note e4 = T8 [THEN conjunct2, THEN conjunct2, THEN conjunct2]
  have a: "WriteCompactSize byte_sink_write [] 4294967296
     = Inl (ios_failure ''WriteCompactSize(): size too large'')"
    using w [rule_format, where n = 4294967296 and wr = byte_sink_write and os = "[]"]
    by (simp add: MAX_SIZE_def)
  have a2: "WriteCompactSize byte_sink_write [] 4294967295 = Inr [0xFE, 0xFF, 0xFF, 0xFF, 0xFF]"
    by (simp add: WriteCompactSize_bytes)
  from l [rule_format, OF a2]
  have a3: "length [0xFE, 0xFF, 0xFF, 0xFF, 0xFF :: byte] \<le> length ([] :: byte list) + 5"
    by (rule conjunct2)
  have b: "ReadCompactSize [0xFF, 0x00, 0x00, 0x00, 0x00, 0x01, 0x00, 0x00, 0x00]
     = Inl (ios_failure ''ReadCompactSize(): size too large'')"
    using r [rule_format, of "[0x00, 0x00, 0x00, 0x00, 0x01, 0x00, 0x00, 0x00]" "[]"]
    by (simp add: MAX_SIZE_def)
  have c: "ReadCompactSize [0xFE, 0xFF, 0xFF, 0xFF, 0xFF] = Inr (4294967295, [])"
    using ReadCompactSize_254 [of "[0xFF, 0xFF, 0xFF, 0xFF]" "[]"] by simp
  from le [rule_format, OF c] have d: "4294967295 \<le> MAX_SIZE" .
  have cs: "compact_sizes (VVector [VCompactSize 4294967296]) = [1, 4294967296]" by simp
  have "\<exists>n\<in>set (compact_sizes (VVector [VCompactSize 4294967296])). MAX_SIZE < n"
    unfolding cs by (simp add: MAX_SIZE_def)
  from e2 [rule_format, OF this, where wr = byte_sink_write and s = "[]"]
  have f: "Serialize_bytes (VVector [VCompactSize 4294967296])
     = Inl (ios_failure ''WriteCompactSize(): size too large'')"
    by (simp add: Serialize_bytes_def)
  have g: "Serialize_bytes (VVector [VCompactSize 4294967295]) = Inr [0x01, 0xFE, 0xFF, 0xFF, 0xFF, 0xFF]"
    by (simp add: Serialize_bytes_def Serialize.simps WriteCompactSize_bytes)
  have "\<exists>x. GetSerializeSize (VCompactSize 4294967296) = Inl x"
    by (simp add: GetSerializeSize_def Serialize.simps WriteCompactSize_def MAX_SIZE_def)
  then obtain x where x: "GetSerializeSize (VCompactSize 4294967296) = Inl x" ..
  from e4 [rule_format, OF x] x
  have h: "GetSerializeSize (VCompactSize 4294967296)
     = Inl (ios_failure ''WriteCompactSize(): size too large'')"
    by simp
  from a a2 a3 b c d cs f g h show ?thesis by (intro conjI)
qed



lemma chunks_until_full: "n \<le> a \<Longrightarrow> chunks_until sz n a i c = chunk_boundaries sz n i c"
proof -
  assume na: "n \<le> a"
  have "\<forall>b\<in>set (chunk_boundaries sz n i c). b \<le> a"
    using chunk_boundaries_bounds [of _ sz n i c] na by fastforce
  then have tw: "takeWhile (\<lambda>b. b \<le> a) (chunk_boundaries sz n i c) = chunk_boundaries sz n i c"
    by (simp add: takeWhile_eq_all_conv)
  show ?thesis unfolding chunks_until_def Let_def tw by simp
qed


lemma chunks_until_prefix:
  "\<exists>j. chunks_until sz n a i c = take j (chunk_boundaries sz n i c)"
  unfolding chunks_until_def Let_def by blast




lemma elems_available_le: "elems_available unser dflt n s \<le> n"
proof (cases "run_elems unser dflt n s")
  case (Done ys s')
  then show ?thesis by (simp add: elems_available_def)
next
  case (Thrown e ys)
  from run_elems_Thrown_nonempty [OF Thrown] have "length ys - 1 \<le> n" by linarith
  then show ?thesis by (simp add: elems_available_def Thrown)
qed



















end
